theory Spec2Isabelle
  imports Complex_Main "HOL-Library.Sublist" "HOL-Library.AList" "HOL-Library.Log_Nat"
begin

section \<open>Text and character classes\<close>

text \<open>
  Python text is modelled as \<open>string\<close>: a list of 8-bit characters, each read as the
  code point of the same number (0 to 255). The character classes are the ones
  Python's \<open>re\<close> module uses for \<open>str\<close> patterns on that range: \<open>\s\<close> is
  \<open>str.isspace\<close>, \<open>\d\<close> is the decimal digits, \<open>\w\<close> is \<open>str.isalnum\<close> or the underscore.
\<close>

definition space_codes :: "nat list" where
  "space_codes = [9, 10, 11, 12, 13, 28, 29, 30, 31, 32, 133, 160]"

definition is_space :: "char \<Rightarrow> bool" where
  "is_space c = (of_char c \<in> set space_codes)"

definition is_digit :: "char \<Rightarrow> bool" where
  "is_digit c = (let n = of_char c :: nat in 48 \<le> n \<and> n \<le> 57)"

definition is_word :: "char \<Rightarrow> bool" where
  "is_word c = (let n = of_char c :: nat in
     (48 \<le> n \<and> n \<le> 57) \<or> (65 \<le> n \<and> n \<le> 90) \<or> n = 95 \<or> (97 \<le> n \<and> n \<le> 122) \<or>
     n \<in> set [170, 178, 179, 181, 185, 186] \<or> (188 \<le> n \<and> n \<le> 190) \<or>
     (192 \<le> n \<and> n \<le> 214) \<or> (216 \<le> n \<and> n \<le> 246) \<or> (248 \<le> n \<and> n \<le> 255))"

definition newline :: char where
  "newline = CHR 0x0A"

text \<open>\<open>output.split("\n")\<close>: the pieces between newlines; never an empty list.\<close>

fun split_lines :: "string \<Rightarrow> string list" where
  "split_lines [] = [[]]"
| "split_lines (c # cs) =
     (if c = newline then [] # split_lines cs
      else (case split_lines cs of
              [] \<Rightarrow> [[c]]
            | l # ls \<Rightarrow> (c # l) # ls))"

text \<open>\<open>sub in line\<close>: \<open>sub\<close> occurs in \<open>line\<close> as a contiguous piece.\<close>

fun contains :: "string \<Rightarrow> string \<Rightarrow> bool" where
  "contains sub [] = (sub = [])"
| "contains sub (c # cs) = (prefix sub (c # cs) \<or> contains sub cs)"

section \<open>Errors\<close>

text \<open>
  The exceptions that can travel through this code: \<open>asyncio.TimeoutError\<close>,
  \<open>asyncssh.Error\<close>, any other \<open>Exception\<close> of the network layer, the
  \<open>ValueError\<close> of \<open>int()\<close> and \<open>float()\<close>, the \<open>TypeError\<close> of arithmetic on a
  string, the \<open>OverflowError\<close> of an integer too large for a float, the
  \<open>ZeroDivisionError\<close> of a division, the interpreter's \<open>RecursionError\<close>, and Home
  Assistant's \<open>UpdateFailed\<close>.
  A function that can raise returns \<open>error + 'a\<close>, \<open>Inl\<close> being the exception.
\<close>

datatype error =
  TimeoutError | SSHError | OtherError | ValueError | TypeError | OverflowError |
  ZeroDivisionError | RecursionError | UpdateFailed

text \<open>
  \<open>int(s)\<close>: a run of one or more decimal digits converts to an integer, unless the
  run is longer than the interpreter allows: CPython refuses a text of more than
  \<open>sys.get_int_max_str_digits()\<close> digits, 4300 unless configured otherwise, zeros in
  front included. The empty text, text with any other character and a run that is too
  long raise \<open>ValueError\<close>. (The spellings with a sign, an underscore or blanks around
  the digits, which \<open>int()\<close> also accepts, hold characters a group \<open>(\d+)\<close> cannot
  capture.)
\<close>

definition int_max_str_digits :: nat where
  "int_max_str_digits = 4300"

definition digit_val :: "char \<Rightarrow> int" where
  "digit_val c = int (of_char c) - 48"

definition digits_value :: "string \<Rightarrow> int" where
  "digits_value s = foldl (\<lambda>a c. 10 * a + digit_val c) 0 s"

definition py_int :: "string \<Rightarrow> error + int" where
  "py_int s =
     (if s \<noteq> [] \<and> list_all is_digit s \<and> length s \<le> int_max_str_digits
      then Inr (digits_value s)
      else Inl ValueError)"

text \<open>The conversions of one matched line, in order; the first that raises ends them.\<close>

fun convert_all :: "string list \<Rightarrow> error + int list" where
  "convert_all [] = Inr []"
| "convert_all (x # xs) =
     (case py_int x of
        Inl e \<Rightarrow> Inl e
      | Inr n \<Rightarrow> (case convert_all xs of Inl e \<Rightarrow> Inl e | Inr ns \<Rightarrow> Inr (n # ns)))"

section \<open>Regular expressions as the patterns use them\<close>

text \<open>
  The patterns of \<open>router.py\<close> are sequences of four kinds of piece: a class repeated
  once or more (\<open>\s+\<close>), the same inside a capturing group (\<open>(\w+)\<close>, \<open>(\d+)\<close>,
  \<open>(\S+)\<close>, \<open>([-\d.]+)\<close>), a capturing alternation of literals
  (\<open>(Up|Disabled|Down)\<close>) and literal text. \<open>re_match\<close> is the backtracking
  matcher anchored at the start of the text: a repetition is greedy (it tries the
  longest run first and gives characters back one at a time), an alternation tries
  its branches from left to right, and the first complete match wins. The result is
  the list of captured groups, \<open>None\<close> when nothing matches.
\<close>

datatype cls = Space | Word | Digit | NonSpace | Number

fun in_cls :: "cls \<Rightarrow> char \<Rightarrow> bool" where
  "in_cls Space c = is_space c"
| "in_cls Word c = is_word c"
| "in_cls Digit c = is_digit c"
| "in_cls NonSpace c = (\<not> is_space c)"
| "in_cls Number c = (c = CHR ''-'' \<or> is_digit c \<or> c = CHR ''.'')"

datatype rx = Many cls | Group cls | Choice "string list" | Lit string

definition run :: "cls \<Rightarrow> string \<Rightarrow> nat" where
  "run k s = length (takeWhile (in_cls k) s)"

fun first_some :: "('a \<Rightarrow> 'b option) \<Rightarrow> 'a list \<Rightarrow> 'b option" where
  "first_some f [] = None"
| "first_some f (x # xs) = (case f x of Some y \<Rightarrow> Some y | None \<Rightarrow> first_some f xs)"

primrec re_match :: "rx list \<Rightarrow> string \<Rightarrow> string list option" where
  "re_match [] s = Some []"
| "re_match (r # rs) s =
     (case r of
        Many k \<Rightarrow>
          first_some (\<lambda>n. re_match rs (drop n s)) (rev [1..<Suc (run k s)])
      | Group k \<Rightarrow>
          first_some (\<lambda>n. map_option (Cons (take n s)) (re_match rs (drop n s)))
            (rev [1..<Suc (run k s)])
      | Choice alts \<Rightarrow>
          first_some (\<lambda>a. if prefix a s
                           then map_option (Cons a) (re_match rs (drop (length a) s))
                           else None) alts
      | Lit l \<Rightarrow>
          (if prefix l s then re_match rs (drop (length l) s) else None))"

text \<open>\<open>re.search\<close>: the first position, from the left, where the pattern matches.\<close>

fun re_search :: "rx list \<Rightarrow> string \<Rightarrow> string list option" where
  "re_search p [] = re_match p []"
| "re_search p (c # cs) =
     (case re_match p (c # cs) of Some g \<Rightarrow> Some g | None \<Rightarrow> re_search p cs)"

section \<open>Floating point\<close>

text \<open>
  A Python \<open>float\<close> is an IEEE 754 binary64 number: \<open>Finite x\<close> is the number \<open>x\<close>
  (\<open>Finite 0\<close> the positive zero), \<open>NegZero\<close> the negative zero, then the two infinities
  and not-a-number. The values a program can reach under \<open>Finite\<close> are the rationals
  binary64 represents (\<open>is_double\<close> below).
\<close>

datatype double = Finite rat | NegZero | PosInf | NegInf | NaN

definition pow2 :: "int \<Rightarrow> rat" where
  "pow2 k = (if 0 \<le> k then 2 ^ nat k else 1 / 2 ^ nat (- k))"

text \<open>The binary exponent of a positive rational: \<open>2 ^ ilog2 a \<le> a < 2 ^ (ilog2 a + 1)\<close>.\<close>

definition ilog2 :: "rat \<Rightarrow> int" where
  "ilog2 a = (if 1 \<le> a then bitlen \<lfloor>a\<rfloor> - 1 else - bitlen (\<lceil>1 / a\<rceil> - 1))"

text \<open>To the nearest integer, a tie going to the even neighbour.\<close>

definition round_half_even :: "rat \<Rightarrow> int" where
  "round_half_even y =
     (let f = \<lfloor>y\<rfloor>; d = y - of_int f
      in if d < 1 / 2 then f
         else if 1 / 2 < d then f + 1
         else if even f then f else f + 1)"

text \<open>
  Rounding of a rational that is not negative to binary64, to nearest with ties to
  even: 53 significant bits, the exponent not below the subnormal range, and
  infinity from \<open>2 ^ 1024 - 2 ^ 970\<close> on.
\<close>

definition round_magnitude :: "rat \<Rightarrow> double" where
  "round_magnitude a =
     (if a = 0 then Finite 0
      else (let e = max (ilog2 a) (- 1022);
                q = pow2 (e - 52);
                r = of_int (round_half_even (a / q)) * q
            in if pow2 1024 \<le> r then PosInf else Finite r))"

fun negate :: "double \<Rightarrow> double" where
  "negate (Finite x) = (if x = 0 then NegZero else Finite (- x))"
| "negate NegZero = Finite 0"
| "negate PosInf = NegInf"
| "negate NegInf = PosInf"
| "negate NaN = NaN"

definition to_double :: "rat \<Rightarrow> double" where
  "to_double x = (if x < 0 then negate (round_magnitude (- x)) else round_magnitude x)"

definition is_double :: "rat \<Rightarrow> bool" where
  "is_double x = (to_double x = Finite x)"

fun is_negative :: "double \<Rightarrow> bool" where
  "is_negative (Finite x) = (x < 0)"
| "is_negative NegZero = True"
| "is_negative NegInf = True"
| "is_negative d = False"

fun is_zero :: "double \<Rightarrow> bool" where
  "is_zero (Finite x) = (x = 0)"
| "is_zero NegZero = True"
| "is_zero d = False"

fun is_inf :: "double \<Rightarrow> bool" where
  "is_inf PosInf = True"
| "is_inf NegInf = True"
| "is_inf d = False"

fun double_value :: "double \<Rightarrow> rat" where
  "double_value (Finite x) = x"
| "double_value d = 0"

definition signed_zero :: "bool \<Rightarrow> double" where
  "signed_zero negative = (if negative then NegZero else Finite 0)"

definition signed_inf :: "bool \<Rightarrow> double" where
  "signed_inf negative = (if negative then NegInf else PosInf)"

text \<open>\<open>x - y\<close> on floats. Equal numbers give the positive zero, except \<open>-0.0 - 0.0\<close>.\<close>

definition double_sub :: "double \<Rightarrow> double \<Rightarrow> double" where
  "double_sub x y =
     (if x = NaN \<or> y = NaN then NaN
      else if is_inf x then (if x = y then NaN else x)
      else if is_inf y then negate y
      else if double_value x = double_value y
           then (if x = NegZero \<and> y = Finite 0 then NegZero else Finite 0)
      else to_double (double_value x - double_value y))"

text \<open>\<open>x / y\<close> on floats, for a divisor that is not zero.\<close>

definition double_div :: "double \<Rightarrow> double \<Rightarrow> double" where
  "double_div x y =
     (if x = NaN \<or> y = NaN then NaN
      else if is_inf x
           then (if is_inf y then NaN else signed_inf (is_negative x \<noteq> is_negative y))
      else if is_inf y \<or> is_zero x then signed_zero (is_negative x \<noteq> is_negative y)
      else to_double (double_value x / double_value y))"

text \<open>\<open>x < 0\<close> and \<open>x <= 0\<close> on floats; a comparison with not-a-number is false.\<close>

fun below_zero :: "double \<Rightarrow> bool" where
  "below_zero (Finite x) = (x < 0)"
| "below_zero NegInf = True"
| "below_zero d = False"

fun at_most_zero :: "double \<Rightarrow> bool" where
  "at_most_zero (Finite x) = (x \<le> 0)"
| "at_most_zero NegZero = True"
| "at_most_zero NegInf = True"
| "at_most_zero d = False"

text \<open>
  The conversion of an integer to a float, as the arithmetic of an \<open>int\<close> with a
  \<open>float\<close> and the division of two integers make it: correctly rounded, and
  \<open>OverflowError\<close> when the result would not be finite.
\<close>

definition int_to_float :: "int \<Rightarrow> error + double" where
  "int_to_float n =
     (let d = to_double (of_int n) in if is_inf d then Inl OverflowError else Inr d)"

text \<open>
  \<open>round(x, 2)\<close> on a float: the exact value of \<open>x\<close> rounded to hundredths, a tie
  going to the even neighbour, and the result rounded to binary64 again; the sign
  stays, and an infinity or not-a-number stays as it is. (CPython raises
  \<open>OverflowError\<close> if the rounded value is too large for a float; two decimal places
  never make a finite float that large, and the model gives the infinity there.)
\<close>

definition round_hundredths :: "rat \<Rightarrow> rat" where
  "round_hundredths x = of_int (round_half_even (x * 100)) / 100"

fun py_round2 :: "double \<Rightarrow> double" where
  "py_round2 (Finite x) =
     (if x < 0 then negate (round_magnitude (round_hundredths (- x)))
      else round_magnitude (round_hundredths x))"
| "py_round2 d = d"

section \<open>The snapshot\<close>

text \<open>
  A metric value is a string, an integer or a float. A Python \<open>dict\<close> is an
  association list in insertion order: assigning to a key that is present replaces
  its value in place, a new key goes to the end.
\<close>

datatype metric = VStr string | VInt int | VFloat double

type_synonym snapshot = "(string \<times> metric) list"

definition setitem :: "string \<Rightarrow> metric \<Rightarrow> snapshot \<Rightarrow> snapshot" where
  "setitem k v d = AList.update k v d"

text \<open>\<open>d.update(other)\<close>\<close>

definition dict_update :: "snapshot \<Rightarrow> snapshot \<Rightarrow> snapshot" where
  "dict_update d other = foldl (\<lambda>acc (k, v). setitem k v acc) d other"

section \<open>The LAN and WAN extractors\<close>

datatype direction = Rx | Tx

fun section_name :: "direction \<Rightarrow> string" where
  "section_name Rx = ''rx''"
| "section_name Tx = ''tx''"

text \<open>
  \<^verbatim>\<open>\s+(\w+)\s+(Up|Disabled|Down)\s+(\d+)\s+(\d+)\s+(\d+)\s+(\d+)\s+(\d+)\s+(\d+)\s+(\d+)\s+(\d+)\<close>
\<close>

definition lan_pattern :: "rx list" where
  "lan_pattern =
     [Many Space, Group Word, Many Space, Choice [''Up'', ''Disabled'', ''Down''],
      Many Space, Group Digit, Many Space, Group Digit, Many Space, Group Digit,
      Many Space, Group Digit, Many Space, Group Digit, Many Space, Group Digit,
      Many Space, Group Digit, Many Space, Group Digit]"

text \<open>
  \<^verbatim>\<open>\s+(\S+)\s+(\d+)\s+(\d+)\s+(\d+)\s+(\d+)\s+(\d+)\s+(\d+)\s+(\d+)\s+(\d+)\s+(\d+)\<close>
\<close>

definition wan_pattern :: "rx list" where
  "wan_pattern =
     [Many Space, Group NonSpace, Many Space, Group Digit,
      Many Space, Group Digit, Many Space, Group Digit, Many Space, Group Digit,
      Many Space, Group Digit, Many Space, Group Digit, Many Space, Group Digit,
      Many Space, Group Digit, Many Space, Group Digit]"

text \<open>
  The nine assignments made for one matched line, in the source's order. \<open>first\<close> is
  the name and value of the field that differs between LAN (\<open>status\<close>) and WAN
  (\<open>vlan_id\<close>); \<open>ns\<close> are the eight counters.
\<close>

definition counter_names :: "string list" where
  "counter_names =
     [''_total_bytes'', ''_total_packets'', ''_errors'', ''_drops'',
      ''_multicast_bytes'', ''_multicast_packets'', ''_unicast_packets'',
      ''_broadcast_packets'']"

definition row_items :: "string \<Rightarrow> string \<Rightarrow> string \<Rightarrow> int list \<Rightarrow> snapshot" where
  "row_items key_prefix first_name first ns =
     (key_prefix @ first_name, VStr first) #
     map (\<lambda>(f, n). (key_prefix @ f, VInt n)) (zip counter_names ns)"

definition lan_key_prefix :: "string \<Rightarrow> direction \<Rightarrow> string" where
  "lan_key_prefix interface sec = ''lan_'' @ interface @ ''_'' @ section_name sec"

definition wan_key_prefix :: "string \<Rightarrow> direction \<Rightarrow> string" where
  "wan_key_prefix interface sec = ''wan_'' @ interface @ ''_'' @ section_name sec"

text \<open>
  One turn of the loop over the lines: the state is \<open>current_section\<close> and \<open>data\<close>.
  A header line sets the section and goes on to the next line; any other line is
  matched against the pattern, and when it matches inside a section its groups are
  converted and its nine fields stored.
\<close>

type_synonym scan_state = "direction option \<times> snapshot"

definition lan_line :: "scan_state \<Rightarrow> string \<Rightarrow> error + scan_state" where
  "lan_line st line =
     (case st of (current_section, data) \<Rightarrow>
        if contains ''Received Counters:'' line then Inr (Some Rx, data)
        else if contains ''Transmitted Counters:'' line then Inr (Some Tx, data)
        else (case (re_match lan_pattern line, current_section) of
                (Some (interface # status # nums), Some sec) \<Rightarrow>
                  (case convert_all nums of
                     Inl e \<Rightarrow> Inl e
                   | Inr ns \<Rightarrow>
                       Inr (current_section,
                            dict_update data
                              (row_items (lan_key_prefix interface sec) ''_status'' status ns)))
              | _ \<Rightarrow> Inr (current_section, data)))"

definition wan_line :: "scan_state \<Rightarrow> string \<Rightarrow> error + scan_state" where
  "wan_line st line =
     (case st of (current_section, data) \<Rightarrow>
        if contains ''Received Counters:'' line then Inr (Some Rx, data)
        else if contains ''Transmitted Counters:'' line then Inr (Some Tx, data)
        else (case (re_match wan_pattern line, current_section) of
                (Some (interface # vlan_id # nums), Some sec) \<Rightarrow>
                  (case convert_all nums of
                     Inl e \<Rightarrow> Inl e
                   | Inr ns \<Rightarrow>
                       Inr (current_section,
                            dict_update data
                              (row_items (wan_key_prefix interface sec) ''_vlan_id'' vlan_id ns)))
              | _ \<Rightarrow> Inr (current_section, data)))"

text \<open>The loop: the lines in order, an exception ending it.\<close>

fun scan_lines ::
  "(scan_state \<Rightarrow> string \<Rightarrow> error + scan_state) \<Rightarrow> scan_state \<Rightarrow> string list
     \<Rightarrow> error + scan_state" where
  "scan_lines step st [] = Inr st"
| "scan_lines step st (line # lines) =
     (case step st line of
        Inl e \<Rightarrow> Inl e
      | Inr st' \<Rightarrow> scan_lines step st' lines)"

definition parse_lan_stats :: "string \<Rightarrow> error + snapshot" where
  "parse_lan_stats output =
     (case scan_lines lan_line (None, []) (split_lines output) of
        Inl e \<Rightarrow> Inl e
      | Inr (current_section, data) \<Rightarrow> Inr data)"

definition parse_wan_stats :: "string \<Rightarrow> error + snapshot" where
  "parse_wan_stats output =
     (case scan_lines wan_line (None, []) (split_lines output) of
        Inl e \<Rightarrow> Inl e
      | Inr (current_section, data) \<Rightarrow> Inr data)"

section \<open>The laser extractor\<close>

text \<open>
  \<open>float(s)\<close> on the text the class \<open>[-\d.]\<close> lets through: an optional leading minus,
  then digits with at most one dot and at least one digit. The result is the float
  nearest to the decimal number, an infinity when the number is too large, with the
  sign of the text (\<open>-0\<close> is the negative zero). Everything else built from those
  characters (\<open>-\<close>, \<open>.\<close>, \<open>1.2.3\<close>, \<open>1-2\<close>) raises \<open>ValueError\<close>. The other spellings
  \<open>float()\<close> accepts (exponents, \<open>inf\<close>, \<open>nan\<close>, underscores, blanks around the number)
  need characters outside the class and never reach it.
\<close>

definition decimal_value :: "string \<Rightarrow> string \<Rightarrow> rat" where
  "decimal_value whole decimals = of_int (digits_value (whole @ decimals)) / 10 ^ length decimals"

definition py_float :: "string \<Rightarrow> error + double" where
  "py_float s =
     (let negative = (s \<noteq> [] \<and> hd s = CHR ''-'');
          body = (if negative then tl s else s);
          whole = takeWhile is_digit body;
          sign = (if negative then negate else id)
      in case dropWhile is_digit body of
           [] \<Rightarrow>
             if whole = [] then Inl ValueError
             else Inr (sign (round_magnitude (decimal_value whole [])))
         | c # decimals \<Rightarrow>
             if c = CHR ''.'' \<and> list_all is_digit decimals \<and> (whole \<noteq> [] \<or> decimals \<noteq> [])
             then Inr (sign (round_magnitude (decimal_value whole decimals)))
             else Inl ValueError)"

text \<open>
  \<^verbatim>\<open>Rx Optical Power\s+=\s+([-\d.]+)\s+dBm\<close> and its four siblings: a label, an equals
  sign between blanks, the number, blanks, the unit.
\<close>

definition laser_pattern :: "string \<Rightarrow> string \<Rightarrow> rx list" where
  "laser_pattern label unit =
     [Lit label, Many Space, Lit ''='', Many Space, Group Number, Many Space, Lit unit]"

definition laser_fields :: "(string \<times> string \<times> string) list" where
  "laser_fields =
     [(''Rx Optical Power'', ''dBm'', ''laser_rx_power''),
      (''Tx Optical Power'', ''dBm'', ''laser_tx_power''),
      (''Tx Bias Current'', ''mA'', ''laser_bias_current''),
      (''Supply voltage'', ''V'', ''laser_voltage''),
      (''SFF Temperature'', ''C'', ''laser_temperature'')]"

text \<open>One lookup: search, and when the search matches convert group 1 and store it.\<close>

definition laser_field ::
  "string \<Rightarrow> error + snapshot \<Rightarrow> string \<times> string \<times> string \<Rightarrow> error + snapshot" where
  "laser_field output acc field =
     (case (acc, field) of
        (Inl e, _) \<Rightarrow> Inl e
      | (Inr data, (label, unit, key)) \<Rightarrow>
          (case re_search (laser_pattern label unit) output of
             Some (g # _) \<Rightarrow>
               (case py_float g of
                  Inl e \<Rightarrow> Inl e
                | Inr x \<Rightarrow> Inr (setitem key (VFloat x) data))
           | _ \<Rightarrow> Inr data))"

definition parse_laser_stats :: "string \<Rightarrow> error + snapshot" where
  "parse_laser_stats output = foldl (laser_field output) (Inr []) laser_fields"

section \<open>The SSH session\<close>

text \<open>
  What the device and the network do during one session is an input of the model:
  whether \<open>asyncssh.connect\<close> and \<open>create_process\<close> raise, what the read of the
  initial output gives, and for the \<open>i\<close>-th command of the loop whether writing it
  raises and what the read gives. A read gives text or raises; \<open>Inl TimeoutError\<close> is
  the timeout of \<open>asyncio.wait_for\<close>. Leaving the two \<open>async with\<close> blocks is taken
  not to raise; the fixed sleeps have no counterpart.
\<close>

record ssh_session =
  connect_result :: "error option"
  process_result :: "error option"
  initial_read :: "error + string"
  write_result :: "nat \<Rightarrow> string \<Rightarrow> error option"
  read_result :: "nat \<Rightarrow> string \<Rightarrow> error + string"
  exit_result :: "error option"

text \<open>
  The loop over the commands, \<open>i\<close> counting the commands already sent. A write that
  raises ends the loop with the error; a read that times out leaves \<open>output\<close> at its
  initial \<open>""\<close>; any other error of a read ends the loop.
\<close>

fun command_loop ::
  "ssh_session \<Rightarrow> nat \<Rightarrow> string list \<Rightarrow> (string \<times> string) list
     \<Rightarrow> error + (string \<times> string) list" where
  "command_loop s i [] results = Inr results"
| "command_loop s i (command # commands) results =
     (case write_result s i command of
        Some e \<Rightarrow> Inl e
      | None \<Rightarrow>
          (case read_result s i command of
             Inr output \<Rightarrow>
               command_loop s (Suc i) commands (AList.update command output results)
           | Inl e \<Rightarrow>
               if e = TimeoutError
               then command_loop s (Suc i) commands (AList.update command [] results)
               else Inl e))"

text \<open>
  After the loop the session is closed by writing \<open>exit\<close>, inside a \<open>try\<close> whose bare
  \<open>except\<close> swallows everything: the outcome of that write does not change the result.
\<close>

definition command_phase ::
  "ssh_session \<Rightarrow> string list \<Rightarrow> error + (string \<times> string) list" where
  "command_phase s commands =
     (case command_loop s 0 commands [] of
        Inl e \<Rightarrow> Inl e
      | Inr results \<Rightarrow>
          (case exit_result s of
             Some _ \<Rightarrow> Inr results
           | None \<Rightarrow> Inr results))"

text \<open>
  The whole function. The read that clears the initial output ignores a timeout. The
  three \<open>except\<close> clauses around the session all re-raise, so an error leaves the
  function as it is.
\<close>

definition execute_multiple_commands ::
  "ssh_session \<Rightarrow> string list \<Rightarrow> error + (string \<times> string) list" where
  "execute_multiple_commands s commands =
     (case connect_result s of
        Some e \<Rightarrow> Inl e
      | None \<Rightarrow>
          (case process_result s of
             Some e \<Rightarrow> Inl e
           | None \<Rightarrow>
               (case initial_read s of
                  Inr _ \<Rightarrow> command_phase s commands
                | Inl e \<Rightarrow>
                    if e = TimeoutError then command_phase s commands else Inl e)))"

text \<open>
  \<open>get_all_data\<close>: everything happens inside one \<open>try\<close> whose \<open>except Exception\<close> logs
  the error and falls through to \<open>return all_data\<close>, with whatever \<open>all_data\<close> holds at
  that moment.
\<close>

definition get_all_data :: "ssh_session \<Rightarrow> error + snapshot" where
  "get_all_data s =
     (case execute_multiple_commands s [''showlanstats'', ''showwanstats'', ''lasercheck''] of
        Inl e \<Rightarrow> Inr []
      | Inr results \<Rightarrow>
          (case (case map_of results ''showlanstats'' of
                   Some out \<Rightarrow> map_sum id (dict_update []) (parse_lan_stats out)
                 | None \<Rightarrow> Inr []) of
             Inl e \<Rightarrow> Inr []
           | Inr all_data1 \<Rightarrow>
               (case (case map_of results ''showwanstats'' of
                        Some out \<Rightarrow> map_sum id (dict_update all_data1) (parse_wan_stats out)
                      | None \<Rightarrow> Inr all_data1) of
                  Inl e \<Rightarrow> Inr all_data1
                | Inr all_data2 \<Rightarrow>
                    (case (case map_of results ''lasercheck'' of
                             Some out \<Rightarrow>
                               map_sum id (dict_update all_data2) (parse_laser_stats out)
                           | None \<Rightarrow> Inr all_data2) of
                       Inl e \<Rightarrow> Inr all_data2
                     | Inr all_data3 \<Rightarrow> Inr all_data3))))"

text \<open>\<open>async_update_data\<close> of \<open>__init__.py\<close>: an exception becomes \<open>UpdateFailed\<close>.\<close>

definition async_update_data :: "ssh_session \<Rightarrow> error + snapshot" where
  "async_update_data s =
     (case get_all_data s of
        Inl e \<Rightarrow> Inl UpdateFailed
      | Inr data \<Rightarrow> Inr data)"

section \<open>The speed sensor\<close>

text \<open>
  The fields of \<open>MitrastarSpeedSensor\<close> that \<open>native_value\<close> reads and writes. A time is
  a \<open>datetime\<close>, counted in microseconds (its resolution) from the first instant
  \<open>datetime\<close> can express. \<open>cached_speed = None\<close> stands for an object that has no
  attribute \<open>_cached_speed\<close> yet.
\<close>

record speed_sensor =
  source_key :: string
  last_value :: "metric option"
  last_update :: "int option"
  cached_speed :: "double option"

definition speed_sensor_init :: "string \<Rightarrow> speed_sensor" where
  "speed_sensor_init key =
     \<lparr>source_key = key, last_value = None, last_update = None, cached_speed = None\<rparr>"

text \<open>
  \<open>(current_time - self._last_update).total_seconds()\<close>: the microseconds between the
  two times divided by \<open>10 ** 6\<close>, correctly rounded. The range of \<open>datetime\<close> (the
  years 1 to 9999) keeps the quotient far from the largest float.
\<close>

definition total_seconds :: "int \<Rightarrow> int \<Rightarrow> double" where
  "total_seconds current_time previous_time =
     to_double (of_int (current_time - previous_time) / 1000000)"

text \<open>
  \<open>current_value - self._last_value\<close>: two integers give an integer; with a float on
  either side the integer is converted and the floats subtract; a string raises
  \<open>TypeError\<close>.
\<close>

datatype number = NInt int | NFloat double

fun py_sub :: "metric \<Rightarrow> metric \<Rightarrow> error + number" where
  "py_sub (VInt a) (VInt b) = Inr (NInt (a - b))"
| "py_sub (VInt a) (VFloat y) =
     (case int_to_float a of Inl e \<Rightarrow> Inl e | Inr x \<Rightarrow> Inr (NFloat (double_sub x y)))"
| "py_sub (VFloat x) (VInt b) =
     (case int_to_float b of Inl e \<Rightarrow> Inl e | Inr y \<Rightarrow> Inr (NFloat (double_sub x y)))"
| "py_sub (VFloat x) (VFloat y) = Inr (NFloat (double_sub x y))"
| "py_sub a b = Inl TypeError"

text \<open>\<open>value_diff < 0\<close>\<close>

fun negative_number :: "number \<Rightarrow> bool" where
  "negative_number (NInt n) = (n < 0)"
| "negative_number (NFloat d) = below_zero d"

text \<open>
  \<open>value_diff / time_diff\<close>, the divisor being a float: an integer is converted first
  (\<open>OverflowError\<close> when it is too large), a zero divisor raises \<open>ZeroDivisionError\<close>.
\<close>

definition py_truediv :: "number \<Rightarrow> double \<Rightarrow> error + double" where
  "py_truediv value_diff time_diff =
     (case (case value_diff of NInt n \<Rightarrow> int_to_float n | NFloat d \<Rightarrow> Inr d) of
        Inl e \<Rightarrow> Inl e
      | Inr x \<Rightarrow>
          if is_zero time_diff then Inl ZeroDivisionError
          else Inr (double_div x time_diff))"

text \<open>
  The property \<open>native_value\<close>. \<open>data\<close> is \<open>coordinator.data\<close>; \<open>clock\<close> gives the successive
  readings of \<open>datetime.now()\<close>, \<open>clock 0\<close> being the next one. The branch for a time
  difference that is not positive evaluates \<open>self.native_value\<close>, that is the property
  itself, when the object has the attribute \<open>_cached_speed\<close>: the model calls itself,
  with the clock one reading further. \<open>depth\<close> is the number of calls the
  interpreter still allows before it raises \<open>RecursionError\<close>. The result is the
  returned value (\<open>None\<close> for Python's \<open>None\<close>) or the error, and the sensor after the
  call; an exception leaves the sensor as it was. A metric is never Python's \<open>None\<close>,
  so the second \<open>return None\<close> of the source has no case of its own.
\<close>

fun native_value ::
  "nat \<Rightarrow> snapshot \<Rightarrow> (nat \<Rightarrow> int) \<Rightarrow> speed_sensor \<Rightarrow> (error + metric option) \<times> speed_sensor" where
  "native_value 0 data clock self = (Inl RecursionError, self)"
| "native_value (Suc depth) data clock self =
     (case map_of data (source_key self) of
        None \<Rightarrow> (Inr None, self)
      | Some current_value \<Rightarrow>
          (let current_time = clock 0 in
           case (last_value self, last_update self) of
             (Some previous_value, Some previous_time) \<Rightarrow>
               (let time_diff = total_seconds current_time previous_time in
                if at_most_zero time_diff
                then (if cached_speed self \<noteq> None
                      then native_value depth data (\<lambda>n. clock (Suc n)) self
                      else (Inr (Some (VInt 0)), self))
                else (case py_sub current_value previous_value of
                        Inl e \<Rightarrow> (Inl e, self)
                      | Inr value_diff \<Rightarrow>
                          if negative_number value_diff
                          then (Inr (Some (VInt 0)),
                                self\<lparr>last_value := Some current_value,
                                     last_update := Some current_time\<rparr>)
                          else (case py_truediv value_diff time_diff of
                                  Inl e \<Rightarrow> (Inl e, self)
                                | Inr speed \<Rightarrow>
                                    (Inr (Some (VFloat (py_round2 speed))),
                                     self\<lparr>last_value := Some current_value,
                                          last_update := Some current_time,
                                          cached_speed := Some (py_round2 speed)\<rparr>))))
           | _ \<Rightarrow>
               (Inr (Some (VInt 0)),
                self\<lparr>last_value := Some current_value, last_update := Some current_time\<rparr>)))"

section \<open>Vocabulary of the statements\<close>

text \<open>
  The shape of a report line: blanks, tokens, and the cells of the counters, each a
  run of blanks followed by a run of digits.
\<close>

definition blank :: "string \<Rightarrow> bool" where
  "blank w = (w \<noteq> [] \<and> list_all is_space w)"

definition word_token :: "string \<Rightarrow> bool" where
  "word_token w = (w \<noteq> [] \<and> list_all is_word w)"

definition number_token :: "string \<Rightarrow> bool" where
  "number_token w = (w \<noteq> [] \<and> list_all is_digit w)"

definition solid_token :: "string \<Rightarrow> bool" where
  "solid_token w = (w \<noteq> [] \<and> list_all (\<lambda>c. \<not> is_space c) w)"

definition counter_cells :: "(string \<times> string) list \<Rightarrow> string" where
  "counter_cells fs = concat (map (\<lambda>(w, d). w @ d) fs)"

definition counters_pattern :: "nat \<Rightarrow> rx list" where
  "counters_pattern n = concat (replicate n [Many Space, Group Digit])"

text \<open>
  The fields of a line that follow a blank, each given by its first character: the
  characters that are not blanks and come right after a blank.
\<close>

fun field_heads :: "string \<Rightarrow> string" where
  "field_heads (a # b # s) =
     (if is_space a \<and> \<not> is_space b then [b] else []) @ field_heads (b # s)"
| "field_heads s = []"

text \<open>
  The numeric fields of a line after its first \<open>n\<close> fields: those that begin with a
  digit.
\<close>

definition numeric_fields_after :: "nat \<Rightarrow> string \<Rightarrow> nat" where
  "numeric_fields_after n line = length (filter is_digit (drop n (field_heads line)))"

text \<open>A piece of a pattern that takes at least one character and no blank.\<close>

fun solid :: "rx \<Rightarrow> bool" where
  "solid (Many k) = (k \<noteq> Space)"
| "solid (Group k) = (k \<noteq> Space)"
| "solid (Choice alts) = list_all (\<lambda>a. a \<noteq> [] \<and> list_all (\<lambda>c. \<not> is_space c) a) alts"
| "solid (Lit l) = (l \<noteq> [] \<and> list_all (\<lambda>c. \<not> is_space c) l)"

text \<open>A character a piece of a pattern can begin with.\<close>

fun starts :: "rx \<Rightarrow> char \<Rightarrow> bool" where
  "starts (Many k) c = in_cls k c"
| "starts (Group k) c = in_cls k c"
| "starts (Choice alts) c = list_ex (\<lambda>a. a \<noteq> [] \<and> hd a = c) alts"
| "starts (Lit l) c = (l \<noteq> [] \<and> hd l = c)"

text \<open>
  What the groups of a match hold: a class group a run of its class, one character
  at least; an alternation one of its branches.
\<close>

fun captures_ok :: "rx list \<Rightarrow> string list \<Rightarrow> bool" where
  "captures_ok [] g = (g = [])"
| "captures_ok (Many k # rs) g = captures_ok rs g"
| "captures_ok (Lit l # rs) g = captures_ok rs g"
| "captures_ok (Group k # rs) g =
     (case g of [] \<Rightarrow> False | t # g' \<Rightarrow> t \<noteq> [] \<and> list_all (in_cls k) t \<and> captures_ok rs g')"
| "captures_ok (Choice alts # rs) g =
     (case g of [] \<Rightarrow> False | t # g' \<Rightarrow> t \<in> set alts \<and> captures_ok rs g')"

text \<open>A row of a report: the text before the counters, then the cells.\<close>

definition well_formed_cells :: "(string \<times> string) list \<Rightarrow> bool" where
  "well_formed_cells fs = list_all (\<lambda>(w, d). blank w \<and> number_token d) fs"

text \<open>Every counter of the cells is short enough for \<open>int()\<close>.\<close>

definition convertible_cells :: "(string \<times> string) list \<Rightarrow> bool" where
  "convertible_cells fs = list_all (\<lambda>(w, d). length d \<le> int_max_str_digits) fs"

definition lan_row ::
  "string \<Rightarrow> string \<Rightarrow> string \<Rightarrow> string \<Rightarrow> (string \<times> string) list \<Rightarrow> string" where
  "lan_row ws0 interface ws1 status fs = ws0 @ interface @ ws1 @ status @ counter_cells fs"

definition wan_row :: "string \<Rightarrow> string \<Rightarrow> (string \<times> string) list \<Rightarrow> string" where
  "wan_row ws0 interface fs = ws0 @ interface @ counter_cells fs"

text \<open>
  The nine entries of one row, spelled out: the key is the namespace, the interface,
  the section and the field, joined by underscores.
\<close>

definition lan_entries :: "string \<Rightarrow> string \<Rightarrow> string \<Rightarrow> int list \<Rightarrow> snapshot" where
  "lan_entries interface sec status ns =
     [(''lan_'' @ interface @ ''_'' @ sec @ ''_status'', VStr status),
      (''lan_'' @ interface @ ''_'' @ sec @ ''_total_bytes'', VInt (ns ! 0)),
      (''lan_'' @ interface @ ''_'' @ sec @ ''_total_packets'', VInt (ns ! 1)),
      (''lan_'' @ interface @ ''_'' @ sec @ ''_errors'', VInt (ns ! 2)),
      (''lan_'' @ interface @ ''_'' @ sec @ ''_drops'', VInt (ns ! 3)),
      (''lan_'' @ interface @ ''_'' @ sec @ ''_multicast_bytes'', VInt (ns ! 4)),
      (''lan_'' @ interface @ ''_'' @ sec @ ''_multicast_packets'', VInt (ns ! 5)),
      (''lan_'' @ interface @ ''_'' @ sec @ ''_unicast_packets'', VInt (ns ! 6)),
      (''lan_'' @ interface @ ''_'' @ sec @ ''_broadcast_packets'', VInt (ns ! 7))]"

definition wan_entries :: "string \<Rightarrow> string \<Rightarrow> string \<Rightarrow> int list \<Rightarrow> snapshot" where
  "wan_entries interface sec vlan_id ns =
     [(''wan_'' @ interface @ ''_'' @ sec @ ''_vlan_id'', VStr vlan_id),
      (''wan_'' @ interface @ ''_'' @ sec @ ''_total_bytes'', VInt (ns ! 0)),
      (''wan_'' @ interface @ ''_'' @ sec @ ''_total_packets'', VInt (ns ! 1)),
      (''wan_'' @ interface @ ''_'' @ sec @ ''_errors'', VInt (ns ! 2)),
      (''wan_'' @ interface @ ''_'' @ sec @ ''_drops'', VInt (ns ! 3)),
      (''wan_'' @ interface @ ''_'' @ sec @ ''_multicast_bytes'', VInt (ns ! 4)),
      (''wan_'' @ interface @ ''_'' @ sec @ ''_multicast_packets'', VInt (ns ! 5)),
      (''wan_'' @ interface @ ''_'' @ sec @ ''_unicast_packets'', VInt (ns ! 6)),
      (''wan_'' @ interface @ ''_'' @ sec @ ''_broadcast_packets'', VInt (ns ! 7))]"

text \<open>A mapping holds every one of the given entries.\<close>

definition holds_all :: "snapshot \<Rightarrow> snapshot \<Rightarrow> bool" where
  "holds_all d items = list_all (\<lambda>(k, v). map_of d k = Some v) items"

text \<open>What a read leaves in \<open>output\<close>: the text, or \<open>""\<close> after a timeout.\<close>

definition captured :: "ssh_session \<Rightarrow> nat \<Rightarrow> string \<Rightarrow> string" where
  "captured s i command = (case read_result s i command of Inr out \<Rightarrow> out | Inl _ \<Rightarrow> [])"

text \<open>A session of three commands in which the read of the second one times out.\<close>

definition timeout_session :: ssh_session where
  "timeout_session =
     \<lparr>connect_result = None, process_result = None, initial_read = Inl TimeoutError,
      write_result = (\<lambda>i c. None),
      read_result = (\<lambda>i c. if i = 1 then Inl TimeoutError else Inr (''output of '' @ c)),
      exit_result = Some SSHError\<rparr>"

text \<open>
  The value of a metric as a float, when the metric is a float, or an integer that a
  float represents exactly.
\<close>

fun float_value :: "metric \<Rightarrow> rat option" where
  "float_value (VInt a) = (if is_double (of_int a) then Some (of_int a) else None)"
| "float_value (VFloat (Finite x)) = (if is_double x then Some x else None)"
| "float_value v = None"

text \<open>A clock that reads the same time at every call.\<close>

definition steady_clock :: "int \<Rightarrow> nat \<Rightarrow> int" where
  "steady_clock t n = t"

section \<open>Character classes\<close>

lemma space_not_word: "is_space c \<Longrightarrow> \<not> is_word c"
  by (auto simp: is_space_def is_word_def space_codes_def Let_def)

lemma digit_is_word: "is_digit c \<Longrightarrow> is_word c"
  by (auto simp: is_digit_def is_word_def Let_def)

lemma space_not_digit: "is_space c \<Longrightarrow> \<not> is_digit c"
  using space_not_word digit_is_word by blast

lemma in_cls_Digit: "in_cls Digit = is_digit"
  by (rule ext) simp

lemma in_cls_not_space:
  assumes "k \<noteq> Space" and "in_cls k c"
  shows "\<not> is_space c"
proof (cases k)
  case Space
  then show ?thesis using assms(1) by simp
next
  case Word
  then show ?thesis using assms(2) space_not_word by auto
next
  case Digit
  then show ?thesis using assms(2) space_not_digit by auto
next
  case NonSpace
  then show ?thesis using assms(2) by simp
next
  case Number
  have "\<not> is_space CHR ''-''" "\<not> is_space CHR ''.''"
    by (simp_all add: is_space_def space_codes_def)
  then show ?thesis using Number assms(2) space_not_digit by auto
qed

section \<open>The matcher on well-formed text\<close>

lemma first_some_longest:
  assumes "1 \<le> n" and "f n = Some y"
  shows "first_some f (rev [1..<Suc n]) = Some y"
proof -
  have "rev [1..<Suc n] = n # rev [1..<n]" using assms(1) by simp
  then show ?thesis using assms(2) by simp
qed

lemma run_append:
  assumes "list_all (in_cls k) w" and "s = [] \<or> \<not> in_cls k (hd s)"
  shows "run k (w @ s) = length w"
proof -
  have "takeWhile (in_cls k) (w @ s) = w @ takeWhile (in_cls k) s"
    using assms(1) by (simp add: takeWhile_append2 list_all_iff)
  moreover have "takeWhile (in_cls k) s = []"
    using assms(2) by (cases s) auto
  ultimately show ?thesis by (simp add: run_def)
qed

lemma re_match_Many:
  assumes "w \<noteq> []" "list_all (in_cls k) w" "s = [] \<or> \<not> in_cls k (hd s)"
    and "re_match rs s = Some g"
  shows "re_match (Many k # rs) (w @ s) = Some g"
proof -
  have r: "run k (w @ s) = length w" using assms(2,3) by (rule run_append)
  have n: "1 \<le> length w" using assms(1) by (cases w) auto
  have "first_some (\<lambda>n. re_match rs (drop n (w @ s))) (rev [1..<Suc (length w)]) = Some g"
    using n by (rule first_some_longest) (simp add: assms(4))
  then show ?thesis by (simp only: re_match.simps rx.case r)
qed

lemma re_match_Group:
  assumes "w \<noteq> []" "list_all (in_cls k) w" "s = [] \<or> \<not> in_cls k (hd s)"
    and "re_match rs s = Some g"
  shows "re_match (Group k # rs) (w @ s) = Some (w # g)"
proof -
  have r: "run k (w @ s) = length w" using assms(2,3) by (rule run_append)
  have n: "1 \<le> length w" using assms(1) by (cases w) auto
  have "first_some (\<lambda>n. map_option (Cons (take n (w @ s))) (re_match rs (drop n (w @ s))))
          (rev [1..<Suc (length w)]) = Some (w # g)"
    using n by (rule first_some_longest) (simp add: assms(4))
  then show ?thesis by (simp only: re_match.simps rx.case r)
qed

lemma re_match_last_Group:
  assumes "w \<noteq> []" "list_all (in_cls k) w"
  shows "re_match [Group k] (w @ s) = Some [w @ takeWhile (in_cls k) s]"
proof -
  have tw: "takeWhile (in_cls k) (w @ s) = w @ takeWhile (in_cls k) s"
    using assms(2) by (simp add: takeWhile_append2 list_all_iff)
  have n: "1 \<le> run k (w @ s)" using assms(1) by (simp add: run_def tw Suc_le_eq)
  have t: "take (run k (w @ s)) (w @ s) = w @ takeWhile (in_cls k) s"
    unfolding run_def by (metis tw takeWhile_eq_take)
  have "first_some (\<lambda>n. map_option (Cons (take n (w @ s))) (re_match [] (drop n (w @ s))))
          (rev [1..<Suc (run k (w @ s))]) = Some [w @ takeWhile (in_cls k) s]"
    using n by (rule first_some_longest) (simp only: t re_match.simps option.map)
  then show ?thesis by (simp only: re_match.simps rx.case)
qed

lemma re_match_status:
  assumes "st \<in> {''Up'', ''Disabled'', ''Down''}" and "re_match rs s = Some g"
  shows "re_match (Choice [''Up'', ''Disabled'', ''Down''] # rs) (st @ s) = Some (st # g)"
  using assms by auto

lemma hd_blank_cells:
  assumes "fs \<noteq> []" "\<forall>(w, d)\<in>set fs. blank w \<and> number_token d"
  shows "counter_cells fs @ rest \<noteq> [] \<and> is_space (hd (counter_cells fs @ rest))"
proof (cases fs)
  case Nil
  then show ?thesis using assms(1) by simp
next
  case (Cons p ps)
  obtain w d where p: "p = (w, d)" by (cases p)
  have "blank w" using assms(2) Cons p by simp
  then show ?thesis
    by (cases w) (simp_all add: Cons p counter_cells_def blank_def)
qed

lemma counters_match:
  assumes "fs \<noteq> []" "\<forall>(w, d)\<in>set fs. blank w \<and> number_token d"
  shows "re_match (counters_pattern (length fs)) (counter_cells fs @ rest) =
           Some (butlast (map snd fs) @ [snd (last fs) @ takeWhile is_digit rest])"
  using assms
proof (induction fs rule: list_nonempty_induct)
  case (single p)
  obtain w d where p: "p = (w, d)" by (cases p)
  have w: "w \<noteq> []" "list_all (in_cls Space) w" and d: "d \<noteq> []" "list_all (in_cls Digit) d"
    using single p by (simp_all add: blank_def number_token_def in_cls_Digit) (simp add: list_all_iff)
  have "re_match [Group Digit] (d @ rest) = Some [d @ takeWhile is_digit rest]"
    using re_match_last_Group [OF d] by (simp add: in_cls_Digit)
  moreover have "d @ rest = [] \<or> \<not> in_cls Space (hd (d @ rest))"
    using d by (cases d) (auto dest: space_not_digit)
  ultimately have "re_match [Many Space, Group Digit] (w @ d @ rest) = Some [d @ takeWhile is_digit rest]"
    using re_match_Many [OF w] by blast
  then show ?case by (simp add: p counters_pattern_def counter_cells_def del: re_match.simps)
next
  case (cons p ps)
  obtain w d where p: "p = (w, d)" by (cases p)
  have w: "w \<noteq> []" "list_all (in_cls Space) w" and d: "d \<noteq> []" "list_all (in_cls Digit) d"
    using cons.prems p by (simp_all add: blank_def number_token_def in_cls_Digit) (simp add: list_all_iff)
  have ps: "\<forall>(w, d)\<in>set ps. blank w \<and> number_token d" using cons.prems by simp
  let ?tl = "counter_cells ps @ rest"
  let ?g = "butlast (map snd ps) @ [snd (last ps) @ takeWhile is_digit rest]"
  have ih: "re_match (counters_pattern (length ps)) ?tl = Some ?g"
    using cons.IH ps by blast
  have "?tl = [] \<or> \<not> in_cls Digit (hd ?tl)"
    using hd_blank_cells [OF cons.hyps ps, of rest] by (auto dest: space_not_digit)
  then have "re_match (Group Digit # counters_pattern (length ps)) (d @ ?tl) = Some (d # ?g)"
    using re_match_Group [OF d _ ih] by blast
  moreover have "d @ ?tl = [] \<or> \<not> in_cls Space (hd (d @ ?tl))"
    using d by (cases d) (auto dest: space_not_digit)
  ultimately have "re_match (Many Space # Group Digit # counters_pattern (length ps)) (w @ d @ ?tl)
      = Some (d # ?g)"
    using re_match_Many [OF w] by blast
  then show ?case using cons.hyps by (simp add: p counters_pattern_def counter_cells_def del: re_match.simps)
qed

lemma lan_pattern_split:
  "lan_pattern = [Many Space, Group Word, Many Space, Choice [''Up'', ''Disabled'', ''Down'']]
     @ counters_pattern 8"
  by (simp add: lan_pattern_def counters_pattern_def eval_nat_numeral)

lemma wan_pattern_split:
  "wan_pattern = [Many Space, Group NonSpace] @ counters_pattern 9"
  by (simp add: wan_pattern_def counters_pattern_def eval_nat_numeral)

lemma lan_row_match:
  assumes "blank ws0" "word_token iface" "blank ws1" "st \<in> {''Up'', ''Disabled'', ''Down''}"
    and "length fs = 8" "\<forall>(w, d)\<in>set fs. blank w \<and> number_token d"
  shows "re_match lan_pattern (ws0 @ iface @ ws1 @ st @ counter_cells fs @ rest) =
           Some (iface # st # butlast (map snd fs) @ [snd (last fs) @ takeWhile is_digit rest])"
proof -
  let ?g = "butlast (map snd fs) @ [snd (last fs) @ takeWhile is_digit rest]"
  let ?cells = "counter_cells fs @ rest"
  have ne: "fs \<noteq> []" using assms(5) by auto
  have c: "re_match (counters_pattern 8) ?cells = Some ?g"
    using counters_match [OF ne assms(6), of rest] assms(5) by (simp del: re_match.simps)
  have hd_cells: "?cells \<noteq> []" "is_space (hd ?cells)"
    using hd_blank_cells [OF ne assms(6), of rest] by simp_all
  have s: "re_match (Choice [''Up'', ''Disabled'', ''Down''] # counters_pattern 8) (st @ ?cells)
      = Some (st # ?g)"
    using assms(4) c by (rule re_match_status)
  have st_hd: "st @ ?cells \<noteq> [] \<and> \<not> is_space (hd (st @ ?cells))"
    using assms(4) by (auto simp: is_space_def space_codes_def)
  have ws1: "ws1 \<noteq> []" "list_all (in_cls Space) ws1"
    using assms(3) by (simp_all add: blank_def) (simp add: list_all_iff)
  have m1: "re_match (Many Space # Choice [''Up'', ''Disabled'', ''Down''] # counters_pattern 8)
      (ws1 @ st @ ?cells) = Some (st # ?g)"
    using re_match_Many [OF ws1 _ s] st_hd by (simp del: re_match.simps)
  have ifc: "iface \<noteq> []" "list_all (in_cls Word) iface"
    using assms(2) by (simp_all add: word_token_def) (simp add: list_all_iff)
  have "\<not> in_cls Word (hd (ws1 @ st @ ?cells))"
    using assms(3) by (cases ws1) (auto simp: blank_def dest: space_not_word)
  then have m2: "re_match (Group Word # Many Space # Choice [''Up'', ''Disabled'', ''Down'']
      # counters_pattern 8) (iface @ ws1 @ st @ ?cells) = Some (iface # st # ?g)"
    using re_match_Group [OF ifc _ m1] by blast
  have ws0: "ws0 \<noteq> []" "list_all (in_cls Space) ws0"
    using assms(1) by (simp_all add: blank_def) (simp add: list_all_iff)
  have "\<not> in_cls Space (hd (iface @ ws1 @ st @ ?cells))"
    using assms(2) by (cases iface) (auto simp: word_token_def dest: space_not_word)
  then have "re_match (Many Space # Group Word # Many Space # Choice [''Up'', ''Disabled'', ''Down'']
      # counters_pattern 8) (ws0 @ iface @ ws1 @ st @ ?cells) = Some (iface # st # ?g)"
    using re_match_Many [OF ws0 _ m2] by blast
  then show ?thesis by (simp only: lan_pattern_split append.simps)
qed

lemma wan_row_match:
  assumes "blank ws0" "solid_token iface"
    and "length fs = 9" "\<forall>(w, d)\<in>set fs. blank w \<and> number_token d"
  shows "re_match wan_pattern (ws0 @ iface @ counter_cells fs @ rest) =
           Some (iface # butlast (map snd fs) @ [snd (last fs) @ takeWhile is_digit rest])"
proof -
  let ?g = "butlast (map snd fs) @ [snd (last fs) @ takeWhile is_digit rest]"
  let ?cells = "counter_cells fs @ rest"
  have ne: "fs \<noteq> []" using assms(3) by auto
  have c: "re_match (counters_pattern 9) ?cells = Some ?g"
    using counters_match [OF ne assms(4), of rest] assms(3) by (simp del: re_match.simps)
  have hd_cells: "?cells \<noteq> []" "is_space (hd ?cells)"
    using hd_blank_cells [OF ne assms(4), of rest] by simp_all
  have ifc: "iface \<noteq> []" "list_all (in_cls NonSpace) iface"
    using assms(2) by (simp_all add: solid_token_def) (simp add: list_all_iff)
  have "\<not> in_cls NonSpace (hd ?cells)" using hd_cells by simp
  then have m2: "re_match (Group NonSpace # counters_pattern 9) (iface @ ?cells) = Some (iface # ?g)"
    using re_match_Group [OF ifc _ c] by blast
  have ws0: "ws0 \<noteq> []" "list_all (in_cls Space) ws0"
    using assms(1) by (simp_all add: blank_def) (simp add: list_all_iff)
  have "\<not> in_cls Space (hd (iface @ ?cells))"
    using assms(2) by (cases iface) (auto simp: solid_token_def)
  then have "re_match (Many Space # Group NonSpace # counters_pattern 9) (ws0 @ iface @ ?cells)
      = Some (iface # ?g)"
    using re_match_Many [OF ws0 _ m2] by blast
  then show ?thesis by (simp only: wan_pattern_split append.simps)
qed

section \<open>What a match needs and what it captures\<close>

lemma first_some_SomeD: "first_some f xs = Some y \<Longrightarrow> \<exists>x\<in>set xs. f x = Some y"
  by (induction xs) (auto split: option.splits)

lemma run_pos: "1 \<le> run k s \<Longrightarrow> s \<noteq> [] \<and> in_cls k (hd s)"
  by (cases s) (auto simp: run_def split: if_splits)

lemma run_tl: "Suc (Suc n) \<le> run k s \<Longrightarrow> Suc n \<le> run k (tl s)"
  by (cases s) (auto simp: run_def split: if_splits)

lemma field_heads_after_blanks:
  assumes "1 \<le> n" "n \<le> run Space s" "drop n s \<noteq> []" "\<not> is_space (hd (drop n s))"
  shows "field_heads s = hd (drop n s) # field_heads (drop n s)"
  using assms
proof (induction n arbitrary: s)
  case 0
  then show ?case by simp
next
  case (Suc n)
  have s: "s \<noteq> []" "is_space (hd s)" using run_pos [of Space s] Suc.prems(1,2) by auto
  then obtain a s' where as: "s = a # s'" "is_space a" by (cases s) auto
  show ?case
  proof (cases n)
    case 0
    then obtain b s'' where "s' = b # s''" "\<not> is_space b"
      using Suc.prems(3,4) as by (cases s') auto
    then show ?thesis using as 0 by simp
  next
    case (Suc m)
    have ih: "field_heads s' = hd (drop n s') # field_heads (drop n s')"
    proof (rule Suc.IH)
      show "1 \<le> n" using Suc by simp
      show "n \<le> run Space s'" using run_tl [of m Space s] Suc.prems(2) as Suc by simp
      show "drop n s' \<noteq> []" using Suc.prems(3) as by simp
      show "\<not> is_space (hd (drop n s'))" using Suc.prems(4) as by simp
    qed
    have "s' \<noteq> []" "is_space (hd s')"
      using run_pos [of Space s'] run_tl [of m Space s] Suc.prems(2) as Suc by auto
    then obtain b s'' where "s' = b # s''" "is_space b" by (cases s') auto
    then have "field_heads s = field_heads s'" using as by simp
    then show ?thesis using ih as by simp
  qed
qed

lemma field_heads_skip:
  "list_all (\<lambda>c. \<not> is_space c) (take m t) \<Longrightarrow> field_heads (drop m t) = field_heads t"
proof (induction m arbitrary: t)
  case 0
  then show ?case by simp
next
  case (Suc m)
  show ?case
  proof (cases t)
    case Nil
    then show ?thesis by simp
  next
    case (Cons a t')
    have a: "\<not> is_space a" and t': "list_all (\<lambda>c. \<not> is_space c) (take m t')"
      using Suc.prems Cons by simp_all
    have "field_heads (a # t') = field_heads t'" using a by (cases t') simp_all
    then show ?thesis using Suc.IH [OF t'] Cons by simp
  qed
qed

lemma take_run_all: "n \<le> run k s \<Longrightarrow> list_all (in_cls k) (take n s)"
proof -
  assume "n \<le> run k s"
  then have "take n s = take n (takeWhile (in_cls k) s)"
    unfolding run_def by (metis takeWhile_eq_take min.absorb2 take_take min.commute)
  moreover have "set (take n (takeWhile (in_cls k) s)) \<subseteq> set (takeWhile (in_cls k) s)"
    by (rule set_take_subset)
  ultimately show ?thesis by (auto simp: list_all_iff dest: set_takeWhileD)
qed

lemma solid_step:
  assumes "solid r" "re_match (r # rs) t = Some g"
  shows "t \<noteq> [] \<and> starts r (hd t) \<and> \<not> is_space (hd t) \<and>
         (\<exists>m g'. list_all (\<lambda>c. \<not> is_space c) (take m t) \<and> re_match rs (drop m t) = Some g')"
proof (cases r)
  case (Many k)
  then obtain n where n: "1 \<le> n" "n \<le> run k t" "re_match rs (drop n t) = Some g"
    using assms(2) by (auto dest!: first_some_SomeD simp del: upt_Suc)
  then have t: "t \<noteq> [] \<and> in_cls k (hd t)" using run_pos [of k t] by simp
  have k: "k \<noteq> Space" using assms(1) Many by simp
  have "list_all (\<lambda>c. \<not> is_space c) (take n t)"
    using take_run_all [OF n(2)] in_cls_not_space [OF k] by (auto simp: list_all_iff)
  then show ?thesis using n(3) t k Many in_cls_not_space by auto
next
  case (Group k)
  then obtain n g' where n: "1 \<le> n" "n \<le> run k t" "re_match rs (drop n t) = Some g'"
    using assms(2) by (auto dest!: first_some_SomeD simp del: upt_Suc)
  then have t: "t \<noteq> [] \<and> in_cls k (hd t)" using run_pos [of k t] by simp
  have k: "k \<noteq> Space" using assms(1) Group by simp
  have "list_all (\<lambda>c. \<not> is_space c) (take n t)"
    using take_run_all [OF n(2)] in_cls_not_space [OF k] by (auto simp: list_all_iff)
  then show ?thesis using n(3) t k Group in_cls_not_space by auto
next
  case (Choice alts)
  then obtain a g' where a: "a \<in> set alts" "prefix a t" "re_match rs (drop (length a) t) = Some g'"
    using assms(2) by (auto dest!: first_some_SomeD split: if_splits)
  then have sa: "a \<noteq> []" "list_all (\<lambda>c. \<not> is_space c) a"
    using assms(1) Choice by (auto simp: list_all_iff)
  obtain z where z: "t = a @ z" using a(2) by (auto simp: prefix_def)
  have "take (length a) t = a" using z by simp
  moreover have "t \<noteq> []" "hd t = hd a" using z sa(1) by auto
  moreover have "\<not> is_space (hd a)" using sa by (cases a) auto
  moreover have "starts r (hd a)" using Choice a(1) sa(1) by (auto simp: list_ex_iff)
  ultimately show ?thesis using a(3) sa(2) by metis
next
  case (Lit l)
  then have l: "prefix l t" "re_match rs (drop (length l) t) = Some g"
    using assms(2) by (auto split: if_splits)
  have sl: "l \<noteq> []" "list_all (\<lambda>c. \<not> is_space c) l" using assms(1) Lit by auto
  obtain z where z: "t = l @ z" using l(1) by (auto simp: prefix_def)
  have "take (length l) t = l" using z by simp
  moreover have "t \<noteq> []" "hd t = hd l" using z sl(1) by auto
  moreover have "\<not> is_space (hd l)" using sl by (cases l) auto
  moreover have "starts r (hd l)" using Lit sl(1) by simp
  ultimately show ?thesis using l(2) sl(2) by metis
qed

lemma re_match_field_heads:
  assumes "list_all solid xs"
    and "re_match (concat (map (\<lambda>x. [Many Space, x]) xs)) s = Some g"
  shows "list_all2 starts xs (take (length xs) (field_heads s))"
  using assms
proof (induction xs arbitrary: s g)
  case Nil
  then show ?case by simp
next
  case (Cons x xs)
  let ?p = "concat (map (\<lambda>x. [Many Space, x]) xs)"
  from Cons.prems(2) obtain n where n: "1 \<le> n" "n \<le> run Space s"
    "re_match (x # ?p) (drop n s) = Some g"
    by (auto dest!: first_some_SomeD simp del: upt_Suc re_match.simps(2)
        simp add: re_match.simps(2) [of "Many Space"])
  have x: "solid x" and xs: "list_all solid xs" using Cons.prems(1) by simp_all
  from solid_step [OF x n(3)] obtain m g' where
    t: "drop n s \<noteq> []" "starts x (hd (drop n s))" "\<not> is_space (hd (drop n s))"
    and m: "list_all (\<lambda>c. \<not> is_space c) (take m (drop n s))"
      "re_match ?p (drop m (drop n s)) = Some g'"
    by blast
  have "field_heads s = hd (drop n s) # field_heads (drop n s)"
    using n(1,2) t(1,3) by (rule field_heads_after_blanks)
  moreover have "field_heads (drop m (drop n s)) = field_heads (drop n s)"
    using m(1) by (rule field_heads_skip)
  moreover have "list_all2 starts xs (take (length xs) (field_heads (drop m (drop n s))))"
    using Cons.IH [OF xs m(2)] .
  ultimately show ?case using t(2) by simp
qed

lemma lan_pattern_fields:
  "lan_pattern = concat (map (\<lambda>x. [Many Space, x])
     [Group Word, Choice [''Up'', ''Disabled'', ''Down''], Group Digit, Group Digit, Group Digit,
      Group Digit, Group Digit, Group Digit, Group Digit, Group Digit])"
  by (simp add: lan_pattern_def)

lemma wan_pattern_fields:
  "wan_pattern = concat (map (\<lambda>x. [Many Space, x])
     [Group NonSpace, Group Digit, Group Digit, Group Digit, Group Digit,
      Group Digit, Group Digit, Group Digit, Group Digit, Group Digit])"
  by (simp add: wan_pattern_def)

lemma filter_prefix_length:
  assumes "list_all P xs"
  shows "length xs \<le> length (filter P (xs @ ys))"
  using assms by (simp add: list_all_iff)

lemma lan_match_numeric_fields:
  assumes "re_match lan_pattern s = Some g"
  shows "8 \<le> numeric_fields_after 2 s"
proof -
  have "list_all solid [Group Word, Choice [''Up'', ''Disabled'', ''Down''], Group Digit,
      Group Digit, Group Digit, Group Digit, Group Digit, Group Digit, Group Digit, Group Digit]"
    by (simp add: is_space_def space_codes_def)
  from re_match_field_heads [OF this assms [unfolded lan_pattern_fields]]
  have "list_all2 starts [Group Word, Choice [''Up'', ''Disabled'', ''Down''], Group Digit,
      Group Digit, Group Digit, Group Digit, Group Digit, Group Digit, Group Digit, Group Digit]
      (take 10 (field_heads s))"
    by (simp add: eval_nat_numeral)
  then obtain h0 h1 c1 c2 c3 c4 c5 c6 c7 c8 where
    h: "take 10 (field_heads s) = [h0, h1, c1, c2, c3, c4, c5, c6, c7, c8]"
    and c: "list_all is_digit [c1, c2, c3, c4, c5, c6, c7, c8]"
    by (auto simp: list_all2_Cons1)
  have "field_heads s = [h0, h1, c1, c2, c3, c4, c5, c6, c7, c8] @ drop 10 (field_heads s)"
    using h append_take_drop_id [of 10 "field_heads s"] by simp
  then have "drop 2 (field_heads s) = [c1, c2, c3, c4, c5, c6, c7, c8] @ drop 10 (field_heads s)"
    by (metis append_Cons append_Nil drop0 drop_Suc_Cons numeral_2_eq_2)
  then show ?thesis
    using filter_prefix_length [OF c, of "drop 10 (field_heads s)"]
    by (simp add: numeric_fields_after_def)
qed

lemma wan_match_numeric_fields:
  assumes "re_match wan_pattern s = Some g"
  shows "9 \<le> numeric_fields_after 1 s"
proof -
  have "list_all solid [Group NonSpace, Group Digit, Group Digit, Group Digit, Group Digit,
      Group Digit, Group Digit, Group Digit, Group Digit, Group Digit]"
    by simp
  from re_match_field_heads [OF this assms [unfolded wan_pattern_fields]]
  have "list_all2 starts [Group NonSpace, Group Digit, Group Digit, Group Digit, Group Digit,
      Group Digit, Group Digit, Group Digit, Group Digit, Group Digit]
      (take 10 (field_heads s))"
    by (simp add: eval_nat_numeral)
  then obtain h0 c0 c1 c2 c3 c4 c5 c6 c7 c8 where
    h: "take 10 (field_heads s) = [h0, c0, c1, c2, c3, c4, c5, c6, c7, c8]"
    and c: "list_all is_digit [c0, c1, c2, c3, c4, c5, c6, c7, c8]"
    by (auto simp: list_all2_Cons1)
  have "field_heads s = [h0, c0, c1, c2, c3, c4, c5, c6, c7, c8] @ drop 10 (field_heads s)"
    using h append_take_drop_id [of 10 "field_heads s"] by simp
  then have "drop 1 (field_heads s) = [c0, c1, c2, c3, c4, c5, c6, c7, c8] @ drop 10 (field_heads s)"
    by (metis append_Cons append_Nil drop0 drop_Suc_Cons One_nat_def)
  then show ?thesis
    using filter_prefix_length [OF c, of "drop 10 (field_heads s)"]
    by (simp add: numeric_fields_after_def)
qed

lemma contains_set: "contains sub s \<Longrightarrow> set sub \<subseteq> set s"
proof (induction s)
  case Nil
  then show ?case by simp
next
  case (Cons a s)
  then show ?case using set_mono_prefix [of sub "a # s"] by auto
qed

lemma dict_update_Nil: "dict_update d [] = d"
  by (simp add: dict_update_def)

lemma dict_update_Cons: "dict_update d ((k, v) # other) = dict_update (setitem k v d) other"
  by (simp add: dict_update_def)

lemma map_of_setitem: "map_of (setitem k v d) = (map_of d)(k \<mapsto> v)"
  by (simp add: setitem_def update_conv')

lemma map_of_dict_update:
  "map_of (dict_update d other) k =
     (case map_of (rev other) k of Some v \<Rightarrow> Some v | None \<Rightarrow> map_of d k)"
proof (induction other arbitrary: d)
  case Nil
  then show ?case by (simp add: dict_update_Nil)
next
  case (Cons p other)
  obtain k' v' where p: "p = (k', v')" by (cases p)
  show ?case
    by (simp add: p dict_update_Cons Cons.IH map_of_setitem map_of_append map_add_def
        split: option.splits)
qed

lemma row_items_eight:
  "row_items kp f v [n1, n2, n3, n4, n5, n6, n7, n8] =
     [(kp @ f, VStr v), (kp @ ''_total_bytes'', VInt n1), (kp @ ''_total_packets'', VInt n2),
      (kp @ ''_errors'', VInt n3), (kp @ ''_drops'', VInt n4),
      (kp @ ''_multicast_bytes'', VInt n5), (kp @ ''_multicast_packets'', VInt n6),
      (kp @ ''_unicast_packets'', VInt n7), (kp @ ''_broadcast_packets'', VInt n8)]"
  by (simp add: row_items_def counter_names_def)

lemma dict_update_fresh_row:
  "f = ''_status'' \<or> f = ''_vlan_id'' \<Longrightarrow> dict_update [] (row_items kp f v [n1, n2, n3, n4, n5, n6, n7, n8]) =
     row_items kp f v [n1, n2, n3, n4, n5, n6, n7, n8]"
  by (auto simp add: row_items_eight dict_update_def setitem_def)

lemma length_eight: "length (ns :: 'a list) = 8 \<Longrightarrow> \<exists>n1 n2 n3 n4 n5 n6 n7 n8. ns = [n1, n2, n3, n4, n5, n6, n7, n8]"
  by (auto simp: eval_nat_numeral length_Suc_conv)

lemma re_match_captures: "re_match p s = Some g \<Longrightarrow> captures_ok p g"
proof (induction p arbitrary: s g)
  case Nil
  then show ?case by simp
next
  case (Cons r rs)
  show ?case
  proof (cases r)
    case (Many k)
    then obtain n where "re_match rs (drop n s) = Some g"
      using Cons.prems by (auto dest!: first_some_SomeD simp del: upt_Suc)
    then show ?thesis using Cons.IH Many by simp
  next
    case (Group k)
    then obtain n g' where n: "1 \<le> n" "n \<le> run k s"
      "re_match rs (drop n s) = Some g'" "g = take n s # g'"
      using Cons.prems by (auto dest!: first_some_SomeD simp del: upt_Suc)
    have "s \<noteq> []" using run_pos [of k s] n(1,2) by simp
    then have "take n s \<noteq> []" using n(1) by (cases s) auto
    then show ?thesis using Cons.IH [OF n(3)] Group n(4) take_run_all [OF n(2)] by simp
  next
    case (Choice alts)
    then obtain a g' where "a \<in> set alts" "re_match rs (drop (length a) s) = Some g'" "g = a # g'"
      using Cons.prems by (auto dest!: first_some_SomeD split: if_splits)
    then show ?thesis using Cons.IH Choice by auto
  next
    case (Lit l)
    then have "re_match rs (drop (length l) s) = Some g"
      using Cons.prems by (auto split: if_splits)
    then show ?thesis using Cons.IH Lit by simp
  qed
qed

lemma convert_all_numbers:
  "list_all (\<lambda>d. number_token d \<and> length d \<le> int_max_str_digits) xs \<Longrightarrow>
     convert_all xs = Inr (map digits_value xs)"
  by (induction xs) (auto simp: py_int_def number_token_def)

lemma convert_all_too_long:
  assumes "list_all number_token xs" and "\<exists>d\<in>set xs. int_max_str_digits < length d"
  shows "convert_all xs = Inl ValueError"
  using assms
proof (induction xs)
  case Nil
  then show ?case by simp
next
  case (Cons x xs)
  show ?case
  proof (cases "int_max_str_digits < length x")
    case True
    then show ?thesis by (simp add: py_int_def)
  next
    case False
    then have "\<exists>d\<in>set xs. int_max_str_digits < length d" using Cons.prems(2) by auto
    then have "convert_all xs = Inl ValueError" using Cons.IH Cons.prems(1) by simp
    then show ?thesis using Cons.prems(1) False by (simp add: py_int_def number_token_def)
  qed
qed

lemma convert_all_cases:
  assumes "list_all number_token xs"
  shows "(convert_all xs = Inr (map digits_value xs) \<and>
            list_all (\<lambda>d. length d \<le> int_max_str_digits) xs) \<or>
         (convert_all xs = Inl ValueError \<and> (\<exists>d\<in>set xs. int_max_str_digits < length d))"
proof (cases "\<exists>d\<in>set xs. int_max_str_digits < length d")
  case True
  then show ?thesis using convert_all_too_long [OF assms] by simp
next
  case False
  then have "list_all (\<lambda>d. number_token d \<and> length d \<le> int_max_str_digits) xs"
    using assms by (auto simp: list_all_iff not_less)
  then show ?thesis using convert_all_numbers False by (auto simp: list_all_iff not_less)
qed

lemma lan_match_shape:
  assumes "re_match lan_pattern s = Some g"
  shows "\<exists>interface status nums. g = interface # status # nums \<and> length nums = 8 \<and>
           list_all number_token nums"
  using re_match_captures [OF assms]
  by (auto simp: lan_pattern_def number_token_def in_cls_Digit split: list.splits)

lemma wan_match_shape:
  assumes "re_match wan_pattern s = Some g"
  shows "\<exists>interface vlan_id nums. g = interface # vlan_id # nums \<and> length nums = 8 \<and>
           list_all number_token nums"
  using re_match_captures [OF assms]
  by (auto simp: wan_pattern_def number_token_def in_cls_Digit split: list.splits)

section \<open>One row of a report\<close>










lemma row_items_lan:
  "row_items (lan_key_prefix interface sec) ''_status'' status [n1, n2, n3, n4, n5, n6, n7, n8] =
     lan_entries interface (section_name sec) status [n1, n2, n3, n4, n5, n6, n7, n8]"
  by (simp add: row_items_eight lan_key_prefix_def lan_entries_def)

lemma row_items_wan:
  "row_items (wan_key_prefix interface sec) ''_vlan_id'' vlan_id [n1, n2, n3, n4, n5, n6, n7, n8] =
     wan_entries interface (section_name sec) vlan_id [n1, n2, n3, n4, n5, n6, n7, n8]"
  by (simp add: row_items_eight wan_key_prefix_def wan_entries_def)

lemma lan_line_header:
  "contains ''Received Counters:'' line \<Longrightarrow> lan_line (sec, data) line = Inr (Some Rx, data)"
  "\<not> contains ''Received Counters:'' line \<Longrightarrow> contains ''Transmitted Counters:'' line \<Longrightarrow>
     lan_line (sec, data) line = Inr (Some Tx, data)"
  by (simp_all add: lan_line_def)

lemma wan_line_header:
  "contains ''Received Counters:'' line \<Longrightarrow> wan_line (sec, data) line = Inr (Some Rx, data)"
  "\<not> contains ''Received Counters:'' line \<Longrightarrow> contains ''Transmitted Counters:'' line \<Longrightarrow>
     wan_line (sec, data) line = Inr (Some Tx, data)"
  by (simp_all add: wan_line_def)

lemma lan_line_matched:
  assumes "\<not> contains ''Received Counters:'' line" "\<not> contains ''Transmitted Counters:'' line"
    and "re_match lan_pattern line = Some (interface # status # nums)"
  shows "lan_line (Some sec, data) line =
           (case convert_all nums of
              Inl e \<Rightarrow> Inl e
            | Inr ns \<Rightarrow>
                Inr (Some sec,
                     dict_update data
                       (row_items (lan_key_prefix interface sec) ''_status'' status ns)))"
  using assms by (simp add: lan_line_def del: re_match.simps convert_all.simps)

lemma wan_line_matched:
  assumes "\<not> contains ''Received Counters:'' line" "\<not> contains ''Transmitted Counters:'' line"
    and "re_match wan_pattern line = Some (interface # vlan_id # nums)"
  shows "wan_line (Some sec, data) line =
           (case convert_all nums of
              Inl e \<Rightarrow> Inl e
            | Inr ns \<Rightarrow>
                Inr (Some sec,
                     dict_update data
                       (row_items (wan_key_prefix interface sec) ''_vlan_id'' vlan_id ns)))"
  using assms by (simp add: wan_line_def del: re_match.simps convert_all.simps)

lemma lan_row_groups:
  assumes "blank ws0" "word_token interface" "blank ws1"
    "status \<in> {''Up'', ''Disabled'', ''Down''}"
    and "well_formed_cells [(w1, d1), (w2, d2), (w3, d3), (w4, d4), (w5, d5), (w6, d6), (w7, d7), (w8, d8)]"
  shows "re_match lan_pattern
           (lan_row ws0 interface ws1 status
              [(w1, d1), (w2, d2), (w3, d3), (w4, d4), (w5, d5), (w6, d6), (w7, d7), (w8, d8)] @ rest) =
         Some [interface, status, d1, d2, d3, d4, d5, d6, d7, d8 @ takeWhile is_digit rest]"
    and "list_all number_token [d1, d2, d3, d4, d5, d6, d7, d8 @ takeWhile is_digit rest]"
proof -
  let ?fs = "[(w1, d1), (w2, d2), (w3, d3), (w4, d4), (w5, d5), (w6, d6), (w7, d7), (w8, d8)]"
  have cells: "\<forall>(w, d)\<in>set ?fs. blank w \<and> number_token d"
    using assms(5) unfolding well_formed_cells_def list_all_iff .
  have "re_match lan_pattern (ws0 @ interface @ ws1 @ status @ counter_cells ?fs @ rest) =
          Some (interface # status # butlast (map snd ?fs) @ [snd (last ?fs) @ takeWhile is_digit rest])"
    using assms(1-4) _ cells by (rule lan_row_match) simp
  then show "re_match lan_pattern (lan_row ws0 interface ws1 status ?fs @ rest) =
      Some [interface, status, d1, d2, d3, d4, d5, d6, d7, d8 @ takeWhile is_digit rest]"
    by (simp add: lan_row_def del: re_match.simps)
  show "list_all number_token [d1, d2, d3, d4, d5, d6, d7, d8 @ takeWhile is_digit rest]"
    using assms(5) by (simp add: well_formed_cells_def number_token_def list_all_iff)
      (auto dest: set_takeWhileD)
qed

lemma wan_row_groups:
  assumes "blank ws0" "solid_token interface" "blank wv" "number_token vlan_id"
    and "well_formed_cells [(w1, d1), (w2, d2), (w3, d3), (w4, d4), (w5, d5), (w6, d6), (w7, d7), (w8, d8)]"
  shows "re_match wan_pattern
           (wan_row ws0 interface
              [(wv, vlan_id), (w1, d1), (w2, d2), (w3, d3), (w4, d4), (w5, d5), (w6, d6), (w7, d7), (w8, d8)] @ rest) =
         Some [interface, vlan_id, d1, d2, d3, d4, d5, d6, d7, d8 @ takeWhile is_digit rest]"
    and "list_all number_token [d1, d2, d3, d4, d5, d6, d7, d8 @ takeWhile is_digit rest]"
proof -
  let ?fs = "[(wv, vlan_id), (w1, d1), (w2, d2), (w3, d3), (w4, d4), (w5, d5), (w6, d6), (w7, d7), (w8, d8)]"
  have cells: "\<forall>(w, d)\<in>set ?fs. blank w \<and> number_token d"
    using assms(3,4,5) unfolding well_formed_cells_def list_all_iff by simp
  have "re_match wan_pattern (ws0 @ interface @ counter_cells ?fs @ rest) =
          Some (interface # butlast (map snd ?fs) @ [snd (last ?fs) @ takeWhile is_digit rest])"
    using assms(1,2) _ cells by (rule wan_row_match) simp
  then show "re_match wan_pattern (wan_row ws0 interface ?fs @ rest) =
      Some [interface, vlan_id, d1, d2, d3, d4, d5, d6, d7, d8 @ takeWhile is_digit rest]"
    by (simp add: wan_row_def del: re_match.simps)
  show "list_all number_token [d1, d2, d3, d4, d5, d6, d7, d8 @ takeWhile is_digit rest]"
    using assms(5) by (simp add: well_formed_cells_def number_token_def list_all_iff)
      (auto dest: set_takeWhileD)
qed

lemma lan_line_row:
  assumes "blank ws0" "word_token interface" "blank ws1"
    "status \<in> {''Up'', ''Disabled'', ''Down''}"
    and "well_formed_cells [(w1, d1), (w2, d2), (w3, d3), (w4, d4), (w5, d5), (w6, d6), (w7, d7), (w8, d8)]"
    and "convertible_cells [(w1, d1), (w2, d2), (w3, d3), (w4, d4), (w5, d5), (w6, d6), (w7, d7),
           (w8, d8 @ takeWhile is_digit rest)]"
    and "\<not> contains ''Received Counters:''
           (lan_row ws0 interface ws1 status
              [(w1, d1), (w2, d2), (w3, d3), (w4, d4), (w5, d5), (w6, d6), (w7, d7), (w8, d8)] @ rest)"
    and "\<not> contains ''Transmitted Counters:''
           (lan_row ws0 interface ws1 status
              [(w1, d1), (w2, d2), (w3, d3), (w4, d4), (w5, d5), (w6, d6), (w7, d7), (w8, d8)] @ rest)"
  shows "lan_line (Some sec, data)
           (lan_row ws0 interface ws1 status
              [(w1, d1), (w2, d2), (w3, d3), (w4, d4), (w5, d5), (w6, d6), (w7, d7), (w8, d8)] @ rest) =
         Inr (Some sec,
              dict_update data
                (lan_entries interface (section_name sec) status
                   [digits_value d1, digits_value d2, digits_value d3, digits_value d4,
                    digits_value d5, digits_value d6, digits_value d7,
                    digits_value (d8 @ takeWhile is_digit rest)]))"
proof -
  let ?nums = "[d1, d2, d3, d4, d5, d6, d7, d8 @ takeWhile is_digit rest]"
  note g = lan_row_groups [OF assms(1-5), of rest]
  have "list_all (\<lambda>d. number_token d \<and> length d \<le> int_max_str_digits) ?nums"
    using g(2) assms(6) by (simp add: convertible_cells_def)
  then have c: "convert_all ?nums = Inr (map digits_value ?nums)" by (rule convert_all_numbers)
  show ?thesis
    unfolding lan_line_matched [OF assms(7,8) g(1)] c by (simp add: row_items_lan)
qed

lemma wan_line_row:
  assumes "blank ws0" "solid_token interface" "blank wv" "number_token vlan_id"
    and "well_formed_cells [(w1, d1), (w2, d2), (w3, d3), (w4, d4), (w5, d5), (w6, d6), (w7, d7), (w8, d8)]"
    and "convertible_cells [(w1, d1), (w2, d2), (w3, d3), (w4, d4), (w5, d5), (w6, d6), (w7, d7),
           (w8, d8 @ takeWhile is_digit rest)]"
    and "\<not> contains ''Received Counters:''
           (wan_row ws0 interface
              [(wv, vlan_id), (w1, d1), (w2, d2), (w3, d3), (w4, d4), (w5, d5), (w6, d6), (w7, d7), (w8, d8)] @ rest)"
    and "\<not> contains ''Transmitted Counters:''
           (wan_row ws0 interface
              [(wv, vlan_id), (w1, d1), (w2, d2), (w3, d3), (w4, d4), (w5, d5), (w6, d6), (w7, d7), (w8, d8)] @ rest)"
  shows "wan_line (Some sec, data)
           (wan_row ws0 interface
              [(wv, vlan_id), (w1, d1), (w2, d2), (w3, d3), (w4, d4), (w5, d5), (w6, d6), (w7, d7), (w8, d8)] @ rest) =
         Inr (Some sec,
              dict_update data
                (wan_entries interface (section_name sec) vlan_id
                   [digits_value d1, digits_value d2, digits_value d3, digits_value d4,
                    digits_value d5, digits_value d6, digits_value d7,
                    digits_value (d8 @ takeWhile is_digit rest)]))"
proof -
  let ?nums = "[d1, d2, d3, d4, d5, d6, d7, d8 @ takeWhile is_digit rest]"
  note g = wan_row_groups [OF assms(1-5), of rest]
  have "list_all (\<lambda>d. number_token d \<and> length d \<le> int_max_str_digits) ?nums"
    using g(2) assms(6) by (simp add: convertible_cells_def)
  then have c: "convert_all ?nums = Inr (map digits_value ?nums)" by (rule convert_all_numbers)
  show ?thesis
    unfolding wan_line_matched [OF assms(7,8) g(1)] c by (simp add: row_items_wan)
qed

lemma lan_line_long_counter:
  assumes "blank ws0" "word_token interface" "blank ws1"
    "status \<in> {''Up'', ''Disabled'', ''Down''}"
    and "well_formed_cells [(w1, d1), (w2, d2), (w3, d3), (w4, d4), (w5, d5), (w6, d6), (w7, d7), (w8, d8)]"
    and "\<not> convertible_cells [(w1, d1), (w2, d2), (w3, d3), (w4, d4), (w5, d5), (w6, d6), (w7, d7),
           (w8, d8 @ takeWhile is_digit rest)]"
    and "\<not> contains ''Received Counters:''
           (lan_row ws0 interface ws1 status
              [(w1, d1), (w2, d2), (w3, d3), (w4, d4), (w5, d5), (w6, d6), (w7, d7), (w8, d8)] @ rest)"
    and "\<not> contains ''Transmitted Counters:''
           (lan_row ws0 interface ws1 status
              [(w1, d1), (w2, d2), (w3, d3), (w4, d4), (w5, d5), (w6, d6), (w7, d7), (w8, d8)] @ rest)"
  shows "lan_line (Some sec, data)
           (lan_row ws0 interface ws1 status
              [(w1, d1), (w2, d2), (w3, d3), (w4, d4), (w5, d5), (w6, d6), (w7, d7), (w8, d8)] @ rest) =
         Inl ValueError"
proof -
  let ?nums = "[d1, d2, d3, d4, d5, d6, d7, d8 @ takeWhile is_digit rest]"
  note g = lan_row_groups [OF assms(1-5), of rest]
  have "\<exists>d\<in>set ?nums. int_max_str_digits < length d"
    using assms(6) by (auto simp: convertible_cells_def not_le)
  then have c: "convert_all ?nums = Inl ValueError" using g(2) convert_all_too_long by blast
  show ?thesis
    unfolding lan_line_matched [OF assms(7,8) g(1)] c by simp
qed

section \<open>A row after its header\<close>

lemma dict_update_fresh_lan:
  "dict_update [] (lan_entries interface sec status ns) = lan_entries interface sec status ns"
  by (simp add: lan_entries_def dict_update_def setitem_def)

lemma dict_update_fresh_wan:
  "dict_update [] (wan_entries interface sec vlan_id ns) = wan_entries interface sec vlan_id ns"
  by (simp add: wan_entries_def dict_update_def setitem_def)




lemma space_is_space: "is_space CHR '' ''"
  by (simp add: is_space_def space_codes_def)

lemma newline_code: "of_char newline = (10 :: nat)"
  by (simp add: newline_def)




section \<open>Text after the counters\<close>

text \<open>
  Claim C10, as amended. The claim is that a line whose beginning matches the pattern
  gives its full record whatever follows on the line. That holds, for the LAN and for
  the WAN pattern, for every line that holds neither \<open>Received Counters:\<close> nor
  \<open>Transmitted Counters:\<close> and whose counters have at most 4300 digits each: the record
  is built from the leading fields, the last counter being read to the end of its run
  of digits, which goes on into the text that follows when that text begins with
  digits. A line that holds \<open>Received Counters:\<close> is taken as the header of the \<open>rx\<close>
  section, and a line that holds \<open>Transmitted Counters:\<close> and not the other text as the
  header of the \<open>tx\<close> section, before the pattern is tried: it stores nothing, whatever
  else it holds and whatever the section was.
\<close>

theorem trailing_text_ignored:
  assumes "blank ws0"
    and "well_formed_cells
           [(w1, d1), (w2, d2), (w3, d3), (w4, d4), (w5, d5), (w6, d6), (w7, d7), (w8, d8)]"
    and "convertible_cells
           [(w1, d1), (w2, d2), (w3, d3), (w4, d4), (w5, d5), (w6, d6), (w7, d7),
            (w8, d8 @ takeWhile is_digit rest)]"
  shows "(word_token interface \<and> blank ws1 \<and> status \<in> {''Up'', ''Disabled'', ''Down''} \<and>
          \<not> contains ''Received Counters:''
              (lan_row ws0 interface ws1 status
                 [(w1, d1), (w2, d2), (w3, d3), (w4, d4), (w5, d5), (w6, d6), (w7, d7), (w8, d8)]
               @ rest) \<and>
          \<not> contains ''Transmitted Counters:''
              (lan_row ws0 interface ws1 status
                 [(w1, d1), (w2, d2), (w3, d3), (w4, d4), (w5, d5), (w6, d6), (w7, d7), (w8, d8)]
               @ rest) \<longrightarrow>
          lan_line (Some sec, data)
            (lan_row ws0 interface ws1 status
               [(w1, d1), (w2, d2), (w3, d3), (w4, d4), (w5, d5), (w6, d6), (w7, d7), (w8, d8)]
             @ rest) =
          Inr (Some sec,
               dict_update data
                 (lan_entries interface (section_name sec) status
                    [digits_value d1, digits_value d2, digits_value d3, digits_value d4,
                     digits_value d5, digits_value d6, digits_value d7,
                     digits_value (d8 @ takeWhile is_digit rest)])))
         \<and>
         (solid_token token \<and> blank wv \<and> number_token vlan_id \<and>
          \<not> contains ''Received Counters:''
              (wan_row ws0 token
                 [(wv, vlan_id), (w1, d1), (w2, d2), (w3, d3), (w4, d4), (w5, d5), (w6, d6),
                  (w7, d7), (w8, d8)]
               @ rest) \<and>
          \<not> contains ''Transmitted Counters:''
              (wan_row ws0 token
                 [(wv, vlan_id), (w1, d1), (w2, d2), (w3, d3), (w4, d4), (w5, d5), (w6, d6),
                  (w7, d7), (w8, d8)]
               @ rest) \<longrightarrow>
          wan_line (Some sec, data)
            (wan_row ws0 token
               [(wv, vlan_id), (w1, d1), (w2, d2), (w3, d3), (w4, d4), (w5, d5), (w6, d6),
                (w7, d7), (w8, d8)]
             @ rest) =
          Inr (Some sec,
               dict_update data
                 (wan_entries token (section_name sec) vlan_id
                    [digits_value d1, digits_value d2, digits_value d3, digits_value d4,
                     digits_value d5, digits_value d6, digits_value d7,
                     digits_value (d8 @ takeWhile is_digit rest)])))
         \<and>
         (contains ''Received Counters:'' line \<longrightarrow>
            lan_line (any_section, data) line = Inr (Some Rx, data) \<and>
            wan_line (any_section, data) line = Inr (Some Rx, data))
         \<and>
         (\<not> contains ''Received Counters:'' line \<and> contains ''Transmitted Counters:'' line \<longrightarrow>
            lan_line (any_section, data) line = Inr (Some Tx, data) \<and>
            wan_line (any_section, data) line = Inr (Some Tx, data))"
proof (intro conjI impI; (elim conjE)?)
  assume "word_token interface" "blank ws1" "status \<in> {''Up'', ''Disabled'', ''Down''}"
    and "\<not> contains ''Received Counters:''
           (lan_row ws0 interface ws1 status
              [(w1, d1), (w2, d2), (w3, d3), (w4, d4), (w5, d5), (w6, d6), (w7, d7), (w8, d8)]
            @ rest)"
    and "\<not> contains ''Transmitted Counters:''
           (lan_row ws0 interface ws1 status
              [(w1, d1), (w2, d2), (w3, d3), (w4, d4), (w5, d5), (w6, d6), (w7, d7), (w8, d8)]
            @ rest)"
  with assms show "lan_line (Some sec, data)
      (lan_row ws0 interface ws1 status
         [(w1, d1), (w2, d2), (w3, d3), (w4, d4), (w5, d5), (w6, d6), (w7, d7), (w8, d8)]
       @ rest) =
      Inr (Some sec,
           dict_update data
             (lan_entries interface (section_name sec) status
                [digits_value d1, digits_value d2, digits_value d3, digits_value d4,
                 digits_value d5, digits_value d6, digits_value d7,
                 digits_value (d8 @ takeWhile is_digit rest)]))"
    by (intro lan_line_row)
next
  assume "solid_token token" "blank wv" "number_token vlan_id"
    and "\<not> contains ''Received Counters:''
           (wan_row ws0 token
              [(wv, vlan_id), (w1, d1), (w2, d2), (w3, d3), (w4, d4), (w5, d5), (w6, d6),
               (w7, d7), (w8, d8)]
            @ rest)"
    and "\<not> contains ''Transmitted Counters:''
           (wan_row ws0 token
              [(wv, vlan_id), (w1, d1), (w2, d2), (w3, d3), (w4, d4), (w5, d5), (w6, d6),
               (w7, d7), (w8, d8)]
            @ rest)"
  with assms show "wan_line (Some sec, data)
      (wan_row ws0 token
         [(wv, vlan_id), (w1, d1), (w2, d2), (w3, d3), (w4, d4), (w5, d5), (w6, d6),
          (w7, d7), (w8, d8)]
       @ rest) =
      Inr (Some sec,
           dict_update data
             (wan_entries token (section_name sec) vlan_id
                [digits_value d1, digits_value d2, digits_value d3, digits_value d4,
                 digits_value d5, digits_value d6, digits_value d7,
                 digits_value (d8 @ takeWhile is_digit rest)]))"
    by (intro wan_line_row)
next
  assume "contains ''Received Counters:'' line"
  then show "lan_line (any_section, data) line = Inr (Some Rx, data)" by (rule lan_line_header)
next
  assume "contains ''Received Counters:'' line"
  then show "wan_line (any_section, data) line = Inr (Some Rx, data)" by (rule wan_line_header)
next
  assume "\<not> contains ''Received Counters:'' line" "contains ''Transmitted Counters:'' line"
  then show "lan_line (any_section, data) line = Inr (Some Tx, data)" by (rule lan_line_header)
next
  assume "\<not> contains ''Received Counters:'' line" "contains ''Transmitted Counters:'' line"
  then show "wan_line (any_section, data) line = Inr (Some Tx, data)" by (rule wan_line_header)
qed

theorem trailing_text_ignored_witness:
  "lan_line (Some Rx, []) ''  eth1 Up 1 2 3 4 5 6 7 8 9 extra'' =
     Inr (Some Rx,
          [(''lan_eth1_rx_status'', VStr ''Up''), (''lan_eth1_rx_total_bytes'', VInt 1),
           (''lan_eth1_rx_total_packets'', VInt 2), (''lan_eth1_rx_errors'', VInt 3),
           (''lan_eth1_rx_drops'', VInt 4), (''lan_eth1_rx_multicast_bytes'', VInt 5),
           (''lan_eth1_rx_multicast_packets'', VInt 6), (''lan_eth1_rx_unicast_packets'', VInt 7),
           (''lan_eth1_rx_broadcast_packets'', VInt 8)]) \<and>
   wan_line (Some Rx, []) ''  ppp0.1 35 1 2 3 4 5 6 7 8 9 extra'' =
     Inr (Some Rx,
          [(''wan_ppp0.1_rx_vlan_id'', VStr ''35''), (''wan_ppp0.1_rx_total_bytes'', VInt 1),
           (''wan_ppp0.1_rx_total_packets'', VInt 2), (''wan_ppp0.1_rx_errors'', VInt 3),
           (''wan_ppp0.1_rx_drops'', VInt 4), (''wan_ppp0.1_rx_multicast_bytes'', VInt 5),
           (''wan_ppp0.1_rx_multicast_packets'', VInt 6), (''wan_ppp0.1_rx_unicast_packets'', VInt 7),
           (''wan_ppp0.1_rx_broadcast_packets'', VInt 8)]) \<and>
   lan_line (Some Tx, []) ''  eth1 Up 1 2 3 4 5 6 7 8 Received Counters:'' = Inr (Some Rx, []) \<and>
   wan_line (Some Rx, []) ''Transmitted Counters:'' = Inr (Some Tx, [])"
proof -
  let ?cells = "[('' '', ''1''), ('' '', ''2''), ('' '', ''3''), ('' '', ''4''),
                 ('' '', ''5''), ('' '', ''6''), ('' '', ''7''), ('' '', ''8'')]"
  note sp = space_is_space
  have h1: "blank ''  ''" and b: "blank '' ''" using sp by (simp_all add: blank_def)
  have h2: "well_formed_cells ?cells"
    using sp by (simp add: well_formed_cells_def blank_def number_token_def is_digit_def)
  have h3: "convertible_cells [('' '', ''1''), ('' '', ''2''), ('' '', ''3''), ('' '', ''4''),
      ('' '', ''5''), ('' '', ''6''), ('' '', ''7''), ('' '', ''8'' @ takeWhile is_digit '' 9 extra'')]"
    by (simp add: convertible_cells_def int_max_str_digits_def is_digit_def)
  have l1: "word_token ''eth1''" by (simp add: word_token_def is_word_def)
  have l2: "''Up'' \<in> {''Up'', ''Disabled'', ''Down''}" by simp
  have lrow: "lan_row ''  '' ''eth1'' '' '' ''Up'' ?cells @ '' 9 extra'' =
      ''  eth1 Up 1 2 3 4 5 6 7 8 9 extra''"
    by (simp add: lan_row_def counter_cells_def)
  have l3: "\<not> contains ''Received Counters:'' ''  eth1 Up 1 2 3 4 5 6 7 8 9 extra''"
    and l4: "\<not> contains ''Transmitted Counters:'' ''  eth1 Up 1 2 3 4 5 6 7 8 9 extra''"
    by code_simp+
  have w1: "solid_token ''ppp0.1''"
    by (simp add: solid_token_def is_space_def space_codes_def)
  have w2: "number_token ''35''" by (simp add: number_token_def is_digit_def)
  have wrow: "wan_row ''  '' ''ppp0.1'' (('' '', ''35'') # ?cells) @ '' 9 extra'' =
      ''  ppp0.1 35 1 2 3 4 5 6 7 8 9 extra''"
    by (simp add: wan_row_def counter_cells_def)
  have w3: "\<not> contains ''Received Counters:'' ''  ppp0.1 35 1 2 3 4 5 6 7 8 9 extra''"
    and w4: "\<not> contains ''Transmitted Counters:'' ''  ppp0.1 35 1 2 3 4 5 6 7 8 9 extra''"
    by code_simp+
  have r1: "contains ''Received Counters:'' ''  eth1 Up 1 2 3 4 5 6 7 8 Received Counters:''"
    and r2: "\<not> contains ''Received Counters:'' ''Transmitted Counters:'' \<and>
             contains ''Transmitted Counters:'' ''Transmitted Counters:''"
    by code_simp+
  have v: "digits_value ''1'' = 1" "digits_value ''2'' = 2" "digits_value ''3'' = 3"
    "digits_value ''4'' = 4" "digits_value ''5'' = 5" "digits_value ''6'' = 6"
    "digits_value ''7'' = 7" "digits_value (''8'' @ takeWhile is_digit '' 9 extra'') = 8"
    using sp by (simp_all add: digits_value_def digit_val_def is_digit_def)
  note t = trailing_text_ignored [OF h1 h2 h3, of "''eth1''" "'' ''" "''Up''" Rx "[]"
      "''ppp0.1''" "'' ''" "''35''", unfolded lrow wrow]
  have "lan_line (Some Rx, []) ''  eth1 Up 1 2 3 4 5 6 7 8 9 extra'' =
      Inr (Some Rx, dict_update []
        (lan_entries ''eth1'' (section_name Rx) ''Up''
           [digits_value ''1'', digits_value ''2'', digits_value ''3'', digits_value ''4'',
            digits_value ''5'', digits_value ''6'', digits_value ''7'',
            digits_value (''8'' @ takeWhile is_digit '' 9 extra'')]))"
    using t [THEN conjunct1] l1 b l2 l3 l4 by blast
  moreover have "wan_line (Some Rx, []) ''  ppp0.1 35 1 2 3 4 5 6 7 8 9 extra'' =
      Inr (Some Rx, dict_update []
        (wan_entries ''ppp0.1'' (section_name Rx) ''35''
           [digits_value ''1'', digits_value ''2'', digits_value ''3'', digits_value ''4'',
            digits_value ''5'', digits_value ''6'', digits_value ''7'',
            digits_value (''8'' @ takeWhile is_digit '' 9 extra'')]))"
    using t [THEN conjunct2, THEN conjunct1] w1 b w2 w3 w4 by blast
  moreover have "lan_line (Some Tx, []) ''  eth1 Up 1 2 3 4 5 6 7 8 Received Counters:'' =
      Inr (Some Rx, [])"
    using trailing_text_ignored [OF h1 h2 h3, where line = "''  eth1 Up 1 2 3 4 5 6 7 8 Received Counters:''"
        and any_section = "Some Tx" and data = "[]", THEN conjunct2, THEN conjunct2, THEN conjunct1] r1
    by blast
  moreover have "wan_line (Some Rx, []) ''Transmitted Counters:'' = Inr (Some Tx, [])"
    using trailing_text_ignored [OF h1 h2 h3, where line = "''Transmitted Counters:''"
        and any_section = "Some Rx" and data = "[]", THEN conjunct2, THEN conjunct2, THEN conjunct2] r2
    by blast
  ultimately show ?thesis
    unfolding v dict_update_fresh_lan dict_update_fresh_wan
    by (simp add: lan_entries_def wan_entries_def)
qed

text \<open>
  Claim C10, as stated, fails: the beginning of the first line matches the LAN pattern,
  the line lies in the \<open>tx\<close> section, and it stores no record; it switches the section
  to \<open>rx\<close> instead. The second line lies in the \<open>rx\<close> section and its beginning
  matches, but its last counter has 4301 digits: the line raises \<open>ValueError\<close>.
\<close>

theorem trailing_header_counterexample:
  "re_match lan_pattern ''  eth1 Up 1 2 3 4 5 6 7 8'' =
     Some [''eth1'', ''Up'', ''1'', ''2'', ''3'', ''4'', ''5'', ''6'', ''7'', ''8''] \<and>
   lan_line (Some Tx, []) ''  eth1 Up 1 2 3 4 5 6 7 8 Received Counters:'' = Inr (Some Rx, []) \<and>
   lan_line (Some Rx, [])
     (''  eth1 Up 1 2 3 4 5 6 7 '' @ replicate 4301 CHR ''8'' @ '' extra'') = Inl ValueError"
proof -
  let ?long = "replicate 4301 CHR ''8''"
  let ?cells = "[('' '', ''1''), ('' '', ''2''), ('' '', ''3''), ('' '', ''4''),
                 ('' '', ''5''), ('' '', ''6''), ('' '', ''7''), ('' '', ?long)]"
  let ?line = "''  eth1 Up 1 2 3 4 5 6 7 '' @ ?long @ '' extra''"
  note sp = space_is_space
  have a: "re_match lan_pattern ''  eth1 Up 1 2 3 4 5 6 7 8'' =
     Some [''eth1'', ''Up'', ''1'', ''2'', ''3'', ''4'', ''5'', ''6'', ''7'', ''8''] \<and>
   lan_line (Some Tx, []) ''  eth1 Up 1 2 3 4 5 6 7 8 Received Counters:'' = Inr (Some Rx, [])"
    by code_simp
  have h1: "blank ''  ''" and h3: "blank '' ''" using sp by (simp_all add: blank_def)
  have h2: "word_token ''eth1''" by (simp add: word_token_def is_word_def)
  have h4: "''Up'' \<in> {''Up'', ''Disabled'', ''Down''}" by simp
  have h5: "well_formed_cells ?cells"
    using sp by (simp add: well_formed_cells_def blank_def number_token_def is_digit_def list_all_iff)
  have h6: "\<not> convertible_cells [('' '', ''1''), ('' '', ''2''), ('' '', ''3''), ('' '', ''4''),
      ('' '', ''5''), ('' '', ''6''), ('' '', ''7''), ('' '', ?long @ takeWhile is_digit '' extra'')]"
    by (simp add: convertible_cells_def int_max_str_digits_def)
  have row: "lan_row ''  '' ''eth1'' '' '' ''Up'' ?cells @ '' extra'' = ?line"
    by (simp add: lan_row_def counter_cells_def)
  have "CHR '':'' \<notin> set ?line" by simp
  then have h7: "\<not> contains ''Received Counters:'' ?line"
    and h8: "\<not> contains ''Transmitted Counters:'' ?line"
    using contains_set [of "''Received Counters:''" ?line]
      contains_set [of "''Transmitted Counters:''" ?line] by auto
  have "lan_line (Some Rx, []) ?line = Inl ValueError"
    using lan_line_long_counter [OF h1 h2 h3 h4 h5 h6, of Rx "[]", unfolded row] h7 h8 by blast
  with a show ?thesis by blast
qed

section \<open>A line stores a whole group or nothing\<close>

lemma holds_all_dict_update:
  assumes "distinct (map fst items)"
  shows "holds_all (dict_update d items) items"
proof -
  have "map_of (dict_update d items) k = Some v" if "(k, v) \<in> set items" for k v
  proof -
    have "distinct (map fst (rev items))" using assms by (simp add: distinct_rev rev_map [symmetric])
    moreover have "(k, v) \<in> set (rev items)" using that by simp
    ultimately have "map_of (rev items) k = Some v" by (rule map_of_is_SomeI)
    then show ?thesis by (simp add: map_of_dict_update)
  qed
  then show ?thesis by (auto simp: holds_all_def list_all_iff)
qed

lemma lan_entries_distinct: "distinct (map fst (lan_entries interface sec status ns))"
  by (simp add: lan_entries_def)

lemma wan_entries_distinct: "distinct (map fst (wan_entries interface sec vlan_id ns))"
  by (simp add: wan_entries_def)

lemma lan_line_cases:
  "(lan_line (sec, data) line = Inl ValueError \<and>
      (\<exists>g. re_match lan_pattern line = Some g \<and>
           (\<exists>d\<in>set (drop 2 g). int_max_str_digits < length d))) \<or>
   (\<exists>sec'. lan_line (sec, data) line = Inr (sec', data)) \<or>
   (\<exists>s interface status d1 d2 d3 d4 d5 d6 d7 d8.
      sec = Some s \<and>
      re_match lan_pattern line = Some [interface, status, d1, d2, d3, d4, d5, d6, d7, d8] \<and>
      lan_line (sec, data) line =
        Inr (sec, dict_update data
               (lan_entries interface (section_name s) status
                  (map digits_value [d1, d2, d3, d4, d5, d6, d7, d8]))))"
proof (cases "contains ''Received Counters:'' line \<or> contains ''Transmitted Counters:'' line")
  case True
  then show ?thesis by (auto simp: lan_line_def)
next
  case False
  show ?thesis
  proof (cases "re_match lan_pattern line")
    case None
    then show ?thesis using False by (simp add: lan_line_def)
  next
    case (Some g)
    from lan_match_shape [OF Some] obtain interface status nums where
      g: "g = interface # status # nums" "length nums = 8" "list_all number_token nums"
      by blast
    from length_eight [OF g(2)] obtain d1 d2 d3 d4 d5 d6 d7 d8 where
      nums: "nums = [d1, d2, d3, d4, d5, d6, d7, d8]" by blast
    show ?thesis
    proof (cases sec)
      case None
      then show ?thesis using False Some g by (simp add: lan_line_def)
    next
      case (Some s)
      have m: "re_match lan_pattern line = Some (interface # status # nums)"
        using \<open>re_match lan_pattern line = Some g\<close> g(1) by simp
      have l: "lan_line (sec, data) line =
          (case convert_all nums of
             Inl e \<Rightarrow> Inl e
           | Inr ns \<Rightarrow>
               Inr (Some s, dict_update data
                      (row_items (lan_key_prefix interface s) ''_status'' status ns)))"
        using False lan_line_matched [OF _ _ m, of s data] Some by simp
      from convert_all_cases [OF g(3)] show ?thesis
      proof
        assume "convert_all nums = Inr (map digits_value nums) \<and>
          list_all (\<lambda>d. length d \<le> int_max_str_digits) nums"
        then have "lan_line (sec, data) line =
            Inr (sec, dict_update data
                   (lan_entries interface (section_name s) status
                      (map digits_value [d1, d2, d3, d4, d5, d6, d7, d8])))"
          using l Some nums row_items_lan by simp
        then show ?thesis using Some m nums by blast
      next
        assume "convert_all nums = Inl ValueError \<and> (\<exists>d\<in>set nums. int_max_str_digits < length d)"
        then have "lan_line (sec, data) line = Inl ValueError"
          and "\<exists>d\<in>set (drop 2 (interface # status # nums)). int_max_str_digits < length d"
          using l by simp_all
        then show ?thesis using m by blast
      qed
    qed
  qed
qed

lemma wan_line_cases:
  "(wan_line (sec, data) line = Inl ValueError \<and>
      (\<exists>g. re_match wan_pattern line = Some g \<and>
           (\<exists>d\<in>set (drop 2 g). int_max_str_digits < length d))) \<or>
   (\<exists>sec'. wan_line (sec, data) line = Inr (sec', data)) \<or>
   (\<exists>s interface vlan_id d1 d2 d3 d4 d5 d6 d7 d8.
      sec = Some s \<and>
      re_match wan_pattern line = Some [interface, vlan_id, d1, d2, d3, d4, d5, d6, d7, d8] \<and>
      wan_line (sec, data) line =
        Inr (sec, dict_update data
               (wan_entries interface (section_name s) vlan_id
                  (map digits_value [d1, d2, d3, d4, d5, d6, d7, d8]))))"
proof (cases "contains ''Received Counters:'' line \<or> contains ''Transmitted Counters:'' line")
  case True
  then show ?thesis by (auto simp: wan_line_def)
next
  case False
  show ?thesis
  proof (cases "re_match wan_pattern line")
    case None
    then show ?thesis using False by (simp add: wan_line_def)
  next
    case (Some g)
    from wan_match_shape [OF Some] obtain interface vlan_id nums where
      g: "g = interface # vlan_id # nums" "length nums = 8" "list_all number_token nums"
      by blast
    from length_eight [OF g(2)] obtain d1 d2 d3 d4 d5 d6 d7 d8 where
      nums: "nums = [d1, d2, d3, d4, d5, d6, d7, d8]" by blast
    show ?thesis
    proof (cases sec)
      case None
      then show ?thesis using False Some g by (simp add: wan_line_def)
    next
      case (Some s)
      have m: "re_match wan_pattern line = Some (interface # vlan_id # nums)"
        using \<open>re_match wan_pattern line = Some g\<close> g(1) by simp
      have l: "wan_line (sec, data) line =
          (case convert_all nums of
             Inl e \<Rightarrow> Inl e
           | Inr ns \<Rightarrow>
               Inr (Some s, dict_update data
                      (row_items (wan_key_prefix interface s) ''_vlan_id'' vlan_id ns)))"
        using False wan_line_matched [OF _ _ m, of s data] Some by simp
      from convert_all_cases [OF g(3)] show ?thesis
      proof
        assume "convert_all nums = Inr (map digits_value nums) \<and>
          list_all (\<lambda>d. length d \<le> int_max_str_digits) nums"
        then have "wan_line (sec, data) line =
            Inr (sec, dict_update data
                   (wan_entries interface (section_name s) vlan_id
                      (map digits_value [d1, d2, d3, d4, d5, d6, d7, d8])))"
          using l Some nums row_items_wan by simp
        then show ?thesis using Some m nums by blast
      next
        assume "convert_all nums = Inl ValueError \<and> (\<exists>d\<in>set nums. int_max_str_digits < length d)"
        then have "wan_line (sec, data) line = Inl ValueError"
          and "\<exists>d\<in>set (drop 2 (interface # vlan_id # nums)). int_max_str_digits < length d"
          using l by simp_all
        then show ?thesis using m by blast
      qed
    qed
  qed
qed

lemma lan_line_few_fields:
  assumes "numeric_fields_after 2 line < 8"
  shows "\<exists>sec'. lan_line (sec, data) line = Inr (sec', data)"
proof -
  have "re_match lan_pattern line = None"
    using lan_match_numeric_fields [of line] assms by (cases "re_match lan_pattern line") auto
  then show ?thesis by (simp add: lan_line_def)
qed

lemma wan_line_few_fields:
  assumes "numeric_fields_after 1 line < 9"
  shows "\<exists>sec'. wan_line (sec, data) line = Inr (sec', data)"
proof -
  have "re_match wan_pattern line = None"
    using wan_match_numeric_fields [of line] assms by (cases "re_match wan_pattern line") auto
  then show ?thesis by (simp add: wan_line_def)
qed

text \<open>
  Claim C5. Whatever the text, the section and the mapping so far, one line of a LAN or
  WAN report has one of three outcomes. It leaves the mapping as it is. Or, inside a
  section, its beginning matches the pattern and it stores the complete group of its
  row, the status or VLAN id and all eight counters under the keys of its interface
  and section, each of them then present in the mapping. Or its beginning matches with
  a counter of more than 4300 digits and \<open>int()\<close> raises \<open>ValueError\<close>, so that the
  extractor returns no mapping at all. No line stores part of a group. A line with
  fewer than eight numeric fields after its name and status (LAN), or fewer than nine
  after its name (WAN, the VLAN id being one of them), leaves the mapping as it is and
  raises nothing; a field is numeric here when it follows a blank and begins with a
  digit.
\<close>

theorem line_all_or_nothing:
  "((lan_line (sec, data) line = Inl ValueError \<and>
       (\<exists>g. re_match lan_pattern line = Some g \<and>
            (\<exists>d\<in>set (drop 2 g). int_max_str_digits < length d))) \<or>
    (\<exists>sec'. lan_line (sec, data) line = Inr (sec', data)) \<or>
    (\<exists>s interface status d1 d2 d3 d4 d5 d6 d7 d8 data'.
       sec = Some s \<and>
       re_match lan_pattern line = Some [interface, status, d1, d2, d3, d4, d5, d6, d7, d8] \<and>
       lan_line (sec, data) line = Inr (sec, data') \<and>
       data' = dict_update data
                 (lan_entries interface (section_name s) status
                    (map digits_value [d1, d2, d3, d4, d5, d6, d7, d8])) \<and>
       holds_all data'
         (lan_entries interface (section_name s) status
            (map digits_value [d1, d2, d3, d4, d5, d6, d7, d8]))))
   \<and>
   ((wan_line (sec, data) line = Inl ValueError \<and>
       (\<exists>g. re_match wan_pattern line = Some g \<and>
            (\<exists>d\<in>set (drop 2 g). int_max_str_digits < length d))) \<or>
    (\<exists>sec'. wan_line (sec, data) line = Inr (sec', data)) \<or>
    (\<exists>s interface vlan_id d1 d2 d3 d4 d5 d6 d7 d8 data'.
       sec = Some s \<and>
       re_match wan_pattern line = Some [interface, vlan_id, d1, d2, d3, d4, d5, d6, d7, d8] \<and>
       wan_line (sec, data) line = Inr (sec, data') \<and>
       data' = dict_update data
                 (wan_entries interface (section_name s) vlan_id
                    (map digits_value [d1, d2, d3, d4, d5, d6, d7, d8])) \<and>
       holds_all data'
         (wan_entries interface (section_name s) vlan_id
            (map digits_value [d1, d2, d3, d4, d5, d6, d7, d8]))))
   \<and>
   (numeric_fields_after 2 line < 8 \<longrightarrow> (\<exists>sec'. lan_line (sec, data) line = Inr (sec', data)))
   \<and>
   (numeric_fields_after 1 line < 9 \<longrightarrow> (\<exists>sec'. wan_line (sec, data) line = Inr (sec', data)))"
proof (intro conjI impI)
  have "holds_all (dict_update data (lan_entries interface sname status ns))
      (lan_entries interface sname status ns)" for interface sname status ns
    by (rule holds_all_dict_update) (rule lan_entries_distinct)
  then show "(lan_line (sec, data) line = Inl ValueError \<and>
       (\<exists>g. re_match lan_pattern line = Some g \<and>
            (\<exists>d\<in>set (drop 2 g). int_max_str_digits < length d))) \<or>
    (\<exists>sec'. lan_line (sec, data) line = Inr (sec', data)) \<or>
    (\<exists>s interface status d1 d2 d3 d4 d5 d6 d7 d8 data'.
       sec = Some s \<and>
       re_match lan_pattern line = Some [interface, status, d1, d2, d3, d4, d5, d6, d7, d8] \<and>
       lan_line (sec, data) line = Inr (sec, data') \<and>
       data' = dict_update data
                 (lan_entries interface (section_name s) status
                    (map digits_value [d1, d2, d3, d4, d5, d6, d7, d8])) \<and>
       holds_all data'
         (lan_entries interface (section_name s) status
            (map digits_value [d1, d2, d3, d4, d5, d6, d7, d8])))"
    using lan_line_cases [of sec data line] by (elim disjE exE conjE) blast+
next
  have "holds_all (dict_update data (wan_entries interface sname vlan_id ns))
      (wan_entries interface sname vlan_id ns)" for interface sname vlan_id ns
    by (rule holds_all_dict_update) (rule wan_entries_distinct)
  then show "(wan_line (sec, data) line = Inl ValueError \<and>
       (\<exists>g. re_match wan_pattern line = Some g \<and>
            (\<exists>d\<in>set (drop 2 g). int_max_str_digits < length d))) \<or>
    (\<exists>sec'. wan_line (sec, data) line = Inr (sec', data)) \<or>
    (\<exists>s interface vlan_id d1 d2 d3 d4 d5 d6 d7 d8 data'.
       sec = Some s \<and>
       re_match wan_pattern line = Some [interface, vlan_id, d1, d2, d3, d4, d5, d6, d7, d8] \<and>
       wan_line (sec, data) line = Inr (sec, data') \<and>
       data' = dict_update data
                 (wan_entries interface (section_name s) vlan_id
                    (map digits_value [d1, d2, d3, d4, d5, d6, d7, d8])) \<and>
       holds_all data'
         (wan_entries interface (section_name s) vlan_id
            (map digits_value [d1, d2, d3, d4, d5, d6, d7, d8])))"
    using wan_line_cases [of sec data line] by (elim disjE exE conjE) blast+
next
  assume "numeric_fields_after 2 line < 8"
  then show "\<exists>sec'. lan_line (sec, data) line = Inr (sec', data)"
    by (rule lan_line_few_fields)
next
  assume "numeric_fields_after 1 line < 9"
  then show "\<exists>sec'. wan_line (sec, data) line = Inr (sec', data)"
    by (rule wan_line_few_fields)
qed

theorem line_all_or_nothing_witness:
  "numeric_fields_after 2 ''  eth1 Up 1 2 3 n/a n/a n/a n/a n/a'' < 8 \<and>
   numeric_fields_after 1 ''  eth1 Up 1 2 3 n/a n/a n/a n/a n/a'' < 9 \<and>
   (\<exists>sec'. lan_line (Some Rx, []) ''  eth1 Up 1 2 3 n/a n/a n/a n/a n/a'' = Inr (sec', [])) \<and>
   (\<exists>sec'. wan_line (Some Rx, []) ''  eth1 Up 1 2 3 n/a n/a n/a n/a n/a'' = Inr (sec', []))"
proof -
  let ?line = "''  eth1 Up 1 2 3 n/a n/a n/a n/a n/a''"
  have h: "numeric_fields_after 2 ?line < 8" "numeric_fields_after 1 ?line < 9"
    by code_simp+
  note t = line_all_or_nothing [of "Some Rx" "[]" ?line]
  have "\<exists>sec'. lan_line (Some Rx, []) ?line = Inr (sec', [])"
    using t [THEN conjunct2, THEN conjunct2, THEN conjunct1] h(1) by (rule mp)
  moreover have "\<exists>sec'. wan_line (Some Rx, []) ?line = Inr (sec', [])"
    using t [THEN conjunct2, THEN conjunct2, THEN conjunct2] h(2) by (rule mp)
  ultimately show ?thesis using h by blast
qed

section \<open>The session multiplexer\<close>

lemma command_loop_returns:
  assumes "\<forall>j<length commands. write_result s (i + j) (commands ! j) = None"
    and "\<forall>j<length commands. \<forall>e. read_result s (i + j) (commands ! j) = Inl e \<longrightarrow> e = TimeoutError"
  shows "\<exists>r. command_loop s i commands results = Inr r \<and>
           fst ` set r = fst ` set results \<union> set commands \<and>
           (\<forall>j<length commands. commands ! j \<notin> set (drop (Suc j) commands) \<longrightarrow>
              map_of r (commands ! j) = Some (captured s (i + j) (commands ! j))) \<and>
           (\<forall>k. k \<notin> set commands \<longrightarrow> map_of r k = map_of results k)"
  using assms
proof (induction commands arbitrary: i results)
  case Nil
  then show ?case by simp
next
  case (Cons c cs)
  let ?results = "AList.update c (captured s i c) results"
  have w: "write_result s i c = None" using Cons.prems(1) by force
  have rd: "\<forall>e. read_result s i c = Inl e \<longrightarrow> e = TimeoutError" using Cons.prems(2) by force
  have step: "command_loop s i (c # cs) results = command_loop s (Suc i) cs ?results"
    using w rd by (auto simp: captured_def split: sum.splits)
  have p1: "\<forall>j<length cs. write_result s (Suc i + j) (cs ! j) = None"
    using Cons.prems(1) by force
  have p2: "\<forall>j<length cs. \<forall>e. read_result s (Suc i + j) (cs ! j) = Inl e \<longrightarrow> e = TimeoutError"
    using Cons.prems(2) by force
  from Cons.IH [OF p1 p2, of ?results] obtain r where r:
    "command_loop s (Suc i) cs ?results = Inr r"
    "fst ` set r = fst ` set ?results \<union> set cs"
    "\<forall>j<length cs. cs ! j \<notin> set (drop (Suc j) cs) \<longrightarrow>
        map_of r (cs ! j) = Some (captured s (Suc i + j) (cs ! j))"
    "\<forall>k. k \<notin> set cs \<longrightarrow> map_of r k = map_of ?results k"
    by blast
  have a: "fst ` set r = fst ` set results \<union> set (c # cs)"
    using r(2) by (auto simp: dom_update)
  have b: "map_of r ((c # cs) ! j) = Some (captured s (i + j) ((c # cs) ! j))"
    if "j < length (c # cs)" "(c # cs) ! j \<notin> set (drop (Suc j) (c # cs))" for j
  proof (cases j)
    case 0
    then have "c \<notin> set cs" using that(2) by simp
    then have "map_of r c = map_of ?results c" using r(4) by blast
    then show ?thesis using 0 by (simp add: update_conv')
  next
    case (Suc j')
    then show ?thesis using that r(3) by simp
  qed
  have c: "map_of r k = map_of results k" if "k \<notin> set (c # cs)" for k
    using that r(4) by (simp add: update_conv')
  show ?case unfolding step using r(1) a b c by blast
qed

text \<open>
  Claim C6. In a session that is established (connecting, creating the process and the
  first read raise nothing but a timeout), when every write succeeds and every read
  gives text or times out, \<open>_execute_multiple_commands\<close> returns a mapping whose keys
  are exactly the requested commands; each command is mapped to what its own read
  captured, the empty text after a timeout (a command sent twice keeps the capture of
  its last sending). A timeout on one read does not stop the commands after it. The
  witness is the session of three commands whose second read times out.
\<close>

theorem commands_all_captured:
  assumes "connect_result s = None" and "process_result s = None"
    and "\<forall>e. initial_read s = Inl e \<longrightarrow> e = TimeoutError"
    and "\<forall>i<length commands. write_result s i (commands ! i) = None"
    and "\<forall>i<length commands. \<forall>e. read_result s i (commands ! i) = Inl e \<longrightarrow> e = TimeoutError"
  shows "\<exists>results. execute_multiple_commands s commands = Inr results \<and>
           fst ` set results = set commands \<and>
           (\<forall>i<length commands. commands ! i \<notin> set (drop (Suc i) commands) \<longrightarrow>
              map_of results (commands ! i) = Some (captured s i (commands ! i)))"
proof -
  from command_loop_returns [of commands s 0 "[]"] assms(4,5) obtain r where r:
    "command_loop s 0 commands [] = Inr r" "fst ` set r = set commands"
    "\<forall>j<length commands. commands ! j \<notin> set (drop (Suc j) commands) \<longrightarrow>
        map_of r (commands ! j) = Some (captured s j (commands ! j))"
    by auto
  have "command_phase s commands = Inr r"
    using r(1) by (simp add: command_phase_def split: option.splits)
  then have "execute_multiple_commands s commands = Inr r"
    using assms(1,2,3) by (auto simp: execute_multiple_commands_def split: sum.splits)
  then show ?thesis using r(2,3) by blast
qed

theorem commands_all_captured_witness:
  "\<exists>results.
     execute_multiple_commands timeout_session [''showlanstats'', ''showwanstats'', ''lasercheck''] =
       Inr results \<and>
     fst ` set results = {''showlanstats'', ''showwanstats'', ''lasercheck''} \<and>
     map_of results ''showlanstats'' = Some ''output of showlanstats'' \<and>
     map_of results ''showwanstats'' = Some [] \<and>
     map_of results ''lasercheck'' = Some ''output of lasercheck''"
proof -
  let ?cs = "[''showlanstats'', ''showwanstats'', ''lasercheck'']"
  have h1: "connect_result timeout_session = None" and h2: "process_result timeout_session = None"
    and h3: "\<forall>e. initial_read timeout_session = Inl e \<longrightarrow> e = TimeoutError"
    and h4: "\<forall>i<length ?cs. write_result timeout_session i (?cs ! i) = None"
    and h5: "\<forall>i<length ?cs. \<forall>e. read_result timeout_session i (?cs ! i) = Inl e \<longrightarrow> e = TimeoutError"
    by (simp_all add: timeout_session_def)
  from commands_all_captured [OF h1 h2 h3 h4 h5] obtain results where r:
    "execute_multiple_commands timeout_session ?cs = Inr results"
    "fst ` set results = set ?cs"
    "\<forall>i<length ?cs. ?cs ! i \<notin> set (drop (Suc i) ?cs) \<longrightarrow>
        map_of results (?cs ! i) = Some (captured timeout_session i (?cs ! i))"
    by blast
  have "map_of results ''showlanstats'' = Some ''output of showlanstats''"
    using r(3) [rule_format, of 0] by (simp add: captured_def timeout_session_def)
  moreover have "map_of results ''showwanstats'' = Some []"
    using r(3) [rule_format, of 1] by (simp add: captured_def timeout_session_def)
  moreover have "map_of results ''lasercheck'' = Some ''output of lasercheck''"
    using r(3) [rule_format, of 2] by (simp add: captured_def timeout_session_def)
  ultimately show ?thesis using r(1,2) by auto
qed

section \<open>Floating point: the exponent and the rounding\<close>

lemma pow2_powi: "pow2 k = 2 powi k"
  by (simp add: pow2_def power_int_def inverse_eq_divide power_one_over)

lemma pow2_pos: "0 < pow2 k"
  by (simp add: pow2_def)

lemma pow2_add: "pow2 (i + j) = pow2 i * pow2 j"
  by (simp add: pow2_powi power_int_add)

lemma pow2_nat: "0 \<le> k \<Longrightarrow> pow2 k = of_int (2 ^ nat k)"
  by (simp add: pow2_def)

lemma ilog2_lower:
  assumes "0 < a"
  shows "pow2 (ilog2 a) \<le> a"
proof (cases "1 \<le> a")
  case True
  then have f: "0 < \<lfloor>a\<rfloor>" by linarith
  from bitlen_bounds [OF f] have "2 ^ nat (bitlen \<lfloor>a\<rfloor> - 1) \<le> \<lfloor>a\<rfloor>" by simp
  then have "(of_int (2 ^ nat (bitlen \<lfloor>a\<rfloor> - 1)) :: rat) \<le> of_int \<lfloor>a\<rfloor>"
    by (simp only: of_int_le_iff)
  also have "\<dots> \<le> a" by simp
  finally have "(2 :: rat) ^ nat (bitlen \<lfloor>a\<rfloor> - 1) \<le> a" by simp
  moreover have "0 \<le> bitlen \<lfloor>a\<rfloor> - 1" using f by (simp add: bitlen_alt_def)
  ultimately show ?thesis using True by (simp add: ilog2_def pow2_def)
next
  case False
  define m where "m = \<lceil>1 / a\<rceil> - 1"
  define k where "k = bitlen m"
  have inv: "1 < 1 / a" using False assms by (simp add: field_simps)
  then have m: "0 < m" unfolding m_def by linarith
  from bitlen_bounds [OF m] have "m < 2 ^ nat k" by (simp add: k_def)
  then have "\<lceil>1 / a\<rceil> \<le> 2 ^ nat k" unfolding m_def by simp
  then have "1 / a \<le> of_int (2 ^ nat k)" by (simp only: ceiling_le_iff)
  then have "1 / a \<le> 2 ^ nat k" by simp
  then have "1 \<le> 2 ^ nat k * a" using assms by (simp add: field_simps)
  then have le: "1 / 2 ^ nat k \<le> a" by (simp add: field_simps)
  have k0: "0 \<le> k" by (simp add: k_def bitlen_nonneg)
  have "pow2 (- k) = 1 / 2 ^ nat k"
    using k0 by (cases "k = 0") (simp_all add: pow2_def)
  then show ?thesis using False le by (simp add: ilog2_def m_def k_def)
qed

lemma round_half_even_nonneg: "0 \<le> y \<Longrightarrow> 0 \<le> round_half_even y"
  unfolding round_half_even_def Let_def by (auto simp: zero_le_floor intro: add_nonneg_nonneg)

lemma round_half_even_pos: "1 \<le> y \<Longrightarrow> 1 \<le> round_half_even y"
proof -
  assume "1 \<le> y"
  then have "1 \<le> \<lfloor>y\<rfloor>" by linarith
  then show ?thesis unfolding round_half_even_def Let_def by auto
qed

lemma round_magnitude_nonneg:
  assumes "0 \<le> a"
  shows "round_magnitude a = PosInf \<or> (\<exists>r\<ge>0. round_magnitude a = Finite r)"
proof (cases "a = 0")
  case True
  then show ?thesis by (simp add: round_magnitude_def)
next
  case False
  define q where "q = pow2 (max (ilog2 a) (- 1022) - 52)"
  have q: "0 < q" by (simp add: q_def pow2_pos)
  then have "0 \<le> a / q" using assms by simp
  then have "0 \<le> round_half_even (a / q)" by (rule round_half_even_nonneg)
  then have "0 \<le> of_int (round_half_even (a / q)) * q" using q by simp
  then show ?thesis using False by (auto simp: round_magnitude_def Let_def q_def)
qed

lemma round_magnitude_pos:
  assumes "pow2 (- 1074) \<le> a"
  shows "round_magnitude a = PosInf \<or> (\<exists>r>0. round_magnitude a = Finite r)"
proof -
  have a: "0 < a" using assms pow2_pos [of "- 1074"] by linarith
  define e where "e = max (ilog2 a) (- 1022)"
  define q where "q = pow2 (e - 52)"
  have q: "0 < q" by (simp add: q_def pow2_pos)
  have "q \<le> a"
  proof (cases "- 1022 \<le> ilog2 a")
    case True
    then have "e = ilog2 a" by (simp add: e_def)
    then have "pow2 e = q * pow2 52" using pow2_add [of "e - 52" 52] by (simp add: q_def)
    moreover have "(1 :: rat) \<le> pow2 52" by (simp add: pow2_def)
    ultimately have "q \<le> pow2 e" using q by (simp add: mult_le_cancel_left1)
    also have "\<dots> \<le> a" using ilog2_lower [OF a] \<open>e = ilog2 a\<close> by simp
    finally show ?thesis .
  next
    case False
    then have "e = - 1022" by (simp add: e_def)
    then show ?thesis using assms by (simp add: q_def)
  qed
  then have "1 \<le> a / q" using q by (simp add: field_simps)
  then have "1 \<le> round_half_even (a / q)" by (rule round_half_even_pos)
  then have "0 < of_int (round_half_even (a / q)) * q" using q by simp
  then show ?thesis using a by (auto simp: round_magnitude_def Let_def q_def e_def)
qed

lemma round_magnitude_grid:
  assumes "round_magnitude a = Finite r"
  shows "\<exists>m::int. r = of_int m * pow2 (- 1074)"
proof (cases "a = 0")
  case True
  then have "r = 0" using assms by (simp add: round_magnitude_def)
  then show ?thesis by (intro exI [of _ 0]) simp
next
  case False
  define e where "e = max (ilog2 a) (- 1022)"
  define n where "n = round_half_even (a / pow2 (e - 52))"
  have r: "r = of_int n * pow2 (e - 52)"
    using assms False by (auto simp: round_magnitude_def Let_def e_def n_def split: if_splits)
  have e: "0 \<le> e + 1022" by (simp add: e_def)
  have "pow2 (e - 52) = pow2 (e + 1022) * pow2 (- 1074)"
    using pow2_add [of "e + 1022" "- 1074"] by simp
  also have "pow2 (e + 1022) = of_int (2 ^ nat (e + 1022))" using e by (rule pow2_nat)
  finally have "r = of_int (n * 2 ^ nat (e + 1022)) * pow2 (- 1074)" using r by simp
  then show ?thesis by blast
qed

lemma is_double_grid:
  assumes "is_double x"
  shows "\<exists>m::int. x = of_int m * pow2 (- 1074)"
proof (cases "x < 0")
  case True
  then have n: "negate (round_magnitude (- x)) = Finite x"
    using assms by (simp add: is_double_def to_double_def)
  then obtain y where y: "round_magnitude (- x) = Finite y" "x = - y"
    using True by (cases "round_magnitude (- x)") (auto split: if_splits)
  from round_magnitude_grid [OF y(1)] obtain m :: int where "y = of_int m * pow2 (- 1074)" by blast
  then have "x = of_int (- m) * pow2 (- 1074)" using y(2) by simp
  then show ?thesis by blast
next
  case False
  then have "round_magnitude x = Finite x" using assms by (simp add: is_double_def to_double_def)
  then show ?thesis by (rule round_magnitude_grid)
qed

lemma to_double_below_zero:
  assumes "x \<le> - pow2 (- 1074)"
  shows "below_zero (to_double x)"
proof -
  have neg: "x < 0" using assms pow2_pos [of "- 1074"] by linarith
  have "pow2 (- 1074) \<le> - x" using assms by simp
  from round_magnitude_pos [OF this] show ?thesis
    using neg by (auto simp: to_double_def)
qed

lemma double_sub_below_zero:
  assumes "is_double x" "is_double y" "x < y"
  shows "below_zero (double_sub (Finite x) (Finite y))"
proof -
  obtain m n :: int where m: "x = of_int m * pow2 (- 1074)" and n: "y = of_int n * pow2 (- 1074)"
    using is_double_grid assms(1,2) by blast
  have p: "0 < pow2 (- 1074)" by (rule pow2_pos)
  have "m < n" using assms(3) p unfolding m n by (simp add: mult_less_cancel_right)
  then have "m - n \<le> - 1" by simp
  then have "(of_int (m - n) :: rat) \<le> of_int (- 1)" by (simp only: of_int_le_iff)
  then have "(of_int (m - n) :: rat) \<le> - 1" by simp
  then have "of_int (m - n) * pow2 (- 1074) \<le> - 1 * pow2 (- 1074)"
    using p by (simp only: mult_le_cancel_right) simp
  then have "x - y \<le> - pow2 (- 1074)" unfolding m n by (simp add: algebra_simps)
  then have "below_zero (to_double (x - y))" by (rule to_double_below_zero)
  then show ?thesis using assms(3) by (simp add: double_sub_def)
qed

lemma ilog2_upper:
  assumes "1 \<le> a"
  shows "a < pow2 (ilog2 a + 1)"
proof -
  have f: "0 < \<lfloor>a\<rfloor>" using assms by linarith
  from bitlen_bounds [OF f] have "\<lfloor>a\<rfloor> + 1 \<le> 2 ^ nat (bitlen \<lfloor>a\<rfloor>)" by simp
  then have "(of_int (\<lfloor>a\<rfloor> + 1) :: rat) \<le> of_int (2 ^ nat (bitlen \<lfloor>a\<rfloor>))"
    by (simp only: of_int_le_iff)
  moreover have "a < of_int (\<lfloor>a\<rfloor> + 1)" by linarith
  ultimately have "a < of_int (2 ^ nat (bitlen \<lfloor>a\<rfloor>))" by (rule less_le_trans [rotated])
  moreover have "0 \<le> bitlen \<lfloor>a\<rfloor>" by (rule bitlen_nonneg)
  ultimately show ?thesis using assms by (simp add: ilog2_def pow2_nat)
qed

lemma ilog2_nonneg: "1 \<le> a \<Longrightarrow> 0 \<le> ilog2 a"
proof -
  assume a: "1 \<le> a"
  then have "0 < \<lfloor>a\<rfloor>" by linarith
  then have "0 < bitlen \<lfloor>a\<rfloor>" by (simp add: bitlen_alt_def)
  then show ?thesis using a by (simp add: ilog2_def)
qed

lemma pow2_mono: "i \<le> j \<Longrightarrow> pow2 i \<le> pow2 j"
proof -
  assume "i \<le> j"
  then have "0 \<le> j - i" by simp
  then have "(1 :: rat) \<le> pow2 (j - i)" by (simp add: pow2_def)
  moreover have "pow2 j = pow2 i * pow2 (j - i)" using pow2_add [of i "j - i"] by simp
  ultimately show ?thesis using pow2_pos [of i] by (simp add: mult_le_cancel_left1)
qed

lemma pow2_strict_mono: "i < j \<Longrightarrow> pow2 i < pow2 j"
proof -
  assume "i < j"
  then have "0 < nat (j - i)" by simp
  then have "(1 :: rat) < 2 ^ nat (j - i)" by (intro one_less_power) simp_all
  then have "(1 :: rat) < pow2 (j - i)" using \<open>i < j\<close> by (simp add: pow2_def)
  moreover have "pow2 j = pow2 i * pow2 (j - i)" using pow2_add [of i "j - i"] by simp
  ultimately show ?thesis using pow2_pos [of i] by (simp add: mult_less_cancel_left1)
qed

lemma round_half_even_upper:
  assumes "y < of_int N + 1 / 2"
  shows "round_half_even y \<le> N"
proof -
  have f: "\<lfloor>y\<rfloor> \<le> N" using assms by linarith
  show ?thesis
  proof (cases "\<lfloor>y\<rfloor> = N")
    case True
    then have "y - of_int \<lfloor>y\<rfloor> < 1 / 2" using assms by simp
    then show ?thesis using True by (simp add: round_half_even_def Let_def)
  next
    case False
    then have "\<lfloor>y\<rfloor> + 1 \<le> N" using f by simp
    then show ?thesis by (auto simp: round_half_even_def Let_def)
  qed
qed

lemma round_magnitude_finite:
  assumes "1 \<le> a" and "a < pow2 1024 - pow2 970"
  shows "\<exists>r\<ge>0. round_magnitude a = Finite r"
proof -
  define e where "e = ilog2 a"
  define q where "q = pow2 (e - 52)"
  define n where "n = round_half_even (a / q)"
  have a: "0 < a" using assms(1) by simp
  have e0: "0 \<le> e" unfolding e_def using assms(1) by (rule ilog2_nonneg)
  then have m: "max (ilog2 a) (- 1022) = e" by (simp add: e_def)
  have q: "0 < q" by (simp add: q_def pow2_pos)
  have lo: "pow2 e \<le> a" unfolding e_def using a by (rule ilog2_lower)
  have hi: "a < pow2 (e + 1)" unfolding e_def using assms(1) by (rule ilog2_upper)
  have "pow2 e < pow2 1024" using lo assms(2) pow2_pos [of 970] by linarith
  then have e: "e \<le> 1023" using pow2_mono [of 1024 e] by (cases "e \<le> 1023") auto
  have n0: "0 \<le> n" unfolding n_def using a q by (intro round_half_even_nonneg) simp
  have "of_int n * q < pow2 1024"
  proof (cases "e = 1023")
    case True
    then have q971: "q = pow2 971" by (simp add: q_def)
    have "pow2 1024 = pow2 53 * pow2 971" using pow2_add [of 53 971] by simp
    moreover have "pow2 970 * 2 = pow2 971" using pow2_add [of 970 1] by (simp add: pow2_def)
    ultimately have "pow2 1024 - pow2 970 = (pow2 53 - 1 / 2) * pow2 971"
      by (simp add: algebra_simps)
    then have "a / q < pow2 53 - 1 / 2" using assms(2) pow2_pos [of 971]
      by (simp add: q971 pos_divide_less_eq)
    moreover have "pow2 53 = of_int (2 ^ 53 - 1) + 1" by (simp add: pow2_def)
    ultimately have "a / q < of_int (2 ^ 53 - 1) + 1 - 1 / 2" by (simp only:)
    then have "a / q < of_int (2 ^ 53 - 1) + 1 / 2" by linarith
    then have "n \<le> 2 ^ 53 - 1" unfolding n_def by (rule round_half_even_upper)
    then have "(of_int n :: rat) \<le> of_int (2 ^ 53 - 1)" by (simp only: of_int_le_iff)
    then have "(of_int n :: rat) < pow2 53" by (simp add: pow2_def)
    then have "of_int n * q < pow2 53 * q" using q by (simp add: mult_less_cancel_right)
    also have "\<dots> = pow2 1024" using pow2_add [of 53 971] by (simp add: q971)
    finally show ?thesis .
  next
    case False
    have "53 + (e - 52) = e + 1" by simp
    then have split: "pow2 (e + 1) = pow2 53 * q"
      using pow2_add [of 53 "e - 52"] by (simp only: q_def)
    then have "a / q < pow2 53" using hi q by (simp add: pos_divide_less_eq)
    moreover have "pow2 53 = of_int (2 ^ 53)" by (simp add: pow2_def)
    ultimately have "a / q < of_int (2 ^ 53)" by (simp only:)
    then have "a / q < of_int (2 ^ 53) + 1 / 2" by linarith
    then have "n \<le> 2 ^ 53" unfolding n_def by (rule round_half_even_upper)
    then have "(of_int n :: rat) \<le> of_int (2 ^ 53)" by (simp only: of_int_le_iff)
    then have "(of_int n :: rat) \<le> pow2 53" by (simp add: pow2_def)
    then have "of_int n * q \<le> pow2 53 * q" using q by (simp add: mult_le_cancel_right)
    also have "\<dots> = pow2 (e + 1)" using split by simp
    also have "\<dots> < pow2 1024" using False e by (intro pow2_strict_mono) simp
    finally show ?thesis .
  qed
  moreover have "0 \<le> of_int n * q" using n0 q by simp
  ultimately show ?thesis
    using a by (simp add: round_magnitude_def Let_def m q_def [symmetric] n_def [symmetric])
qed

lemma int_to_float_small:
  assumes "0 \<le> n" and "n < 2 ^ 1024 - 2 ^ 970"
  shows "\<exists>r\<ge>0. int_to_float n = Inr (Finite r) \<and> to_double (of_int n) = Finite r"
proof (cases "n = 0")
  case True
  then show ?thesis by (simp add: int_to_float_def to_double_def round_magnitude_def)
next
  case False
  then have "1 \<le> n" using assms(1) by simp
  then have one: "(1 :: rat) \<le> of_int n" by simp
  have eq: "pow2 1024 - pow2 970 = of_int (2 ^ 1024 - 2 ^ 970)" by (simp add: pow2_def)
  have "(of_int n :: rat) < of_int (2 ^ 1024 - 2 ^ 970)" using assms(2) by (simp only: of_int_less_iff)
  then have "(of_int n :: rat) < pow2 1024 - pow2 970" by (simp only: eq)
  from round_magnitude_finite [OF one this] obtain r where
    "0 \<le> r" "round_magnitude (of_int n) = Finite r" by blast
  then show ?thesis using one by (simp add: int_to_float_def to_double_def)
qed

lemma round_half_even_nonneg_rat: "0 \<le> x \<Longrightarrow> 0 \<le> round_hundredths x"
  unfolding round_hundredths_def using round_half_even_nonneg [of "x * 100"] by simp

lemma to_double_nonneg:
  "0 \<le> x \<Longrightarrow> to_double x = PosInf \<or> (\<exists>r\<ge>0. to_double x = Finite r)"
  using round_magnitude_nonneg [of x] by (simp add: to_double_def)

lemma double_div_nonneg:
  assumes "0 \<le> r" and "td = PosInf \<or> (\<exists>t>0. td = Finite t)"
  shows "double_div (Finite r) td = PosInf \<or> (\<exists>s\<ge>0. double_div (Finite r) td = Finite s)"
proof -
  from assms(2) show ?thesis
  proof
    assume "td = PosInf"
    then show ?thesis using assms(1) by (simp add: double_div_def signed_zero_def)
  next
    assume "\<exists>t>0. td = Finite t"
    then obtain t where t: "0 < t" "td = Finite t" by blast
    show ?thesis
    proof (cases "r = 0")
      case True
      then show ?thesis using t by (simp add: double_div_def signed_zero_def)
    next
      case False
      have "0 \<le> r / t" using assms(1) t(1) by simp
      from to_double_nonneg [OF this] show ?thesis using False t by (simp add: double_div_def)
    qed
  qed
qed

lemma py_round2_nonneg:
  assumes "d = PosInf \<or> (\<exists>s\<ge>0. d = Finite s)"
  shows "py_round2 d = PosInf \<or> (\<exists>s\<ge>0. py_round2 d = Finite s)"
proof -
  from assms show ?thesis
  proof
    assume "d = PosInf"
    then show ?thesis by simp
  next
    assume "\<exists>s\<ge>0. d = Finite s"
    then obtain s where s: "0 \<le> s" "d = Finite s" by blast
    have "0 \<le> round_hundredths s" using s(1) by (rule round_half_even_nonneg_rat)
    from round_magnitude_nonneg [OF this] show ?thesis using s by simp
  qed
qed

lemma round_half_even_int: "round_half_even (of_int n) = n"
  by (simp add: round_half_even_def)

lemma round_half_even_lower:
  assumes "of_int N \<le> y"
  shows "N \<le> round_half_even y"
proof -
  have "N \<le> \<lfloor>y\<rfloor>" using assms by (simp add: le_floor_iff)
  then show ?thesis by (auto simp: round_half_even_def Let_def)
qed

lemma round_half_even_lower_half:
  assumes "of_int N - 1 / 2 \<le> y" and "even N"
  shows "N \<le> round_half_even y"
proof (cases "N \<le> \<lfloor>y\<rfloor>")
  case True
  then show ?thesis by (auto simp: round_half_even_def Let_def)
next
  case False
  have "of_int (N - 1) \<le> y" using assms(1) by simp
  then have "N - 1 \<le> \<lfloor>y\<rfloor>" by (simp only: le_floor_iff)
  then have f: "\<lfloor>y\<rfloor> = N - 1" using False by simp
  then have odd: "odd \<lfloor>y\<rfloor>" using assms(2) by simp
  have "1 / 2 \<le> y - of_int \<lfloor>y\<rfloor>" using assms(1) f by simp
  then show ?thesis using f odd by (auto simp: round_half_even_def Let_def)
qed

lemma round_half_even_near:
  assumes "of_int n - 1 / 2 < y" and "y < of_int n + 1 / 2"
  shows "round_half_even y = n"
proof -
  have up: "round_half_even y \<le> n" using assms(2) by (rule round_half_even_upper)
  have "n \<le> round_half_even y"
  proof (cases "of_int n \<le> y")
    case True
    then show ?thesis by (rule round_half_even_lower)
  next
    case False
    have "of_int (n - 1) \<le> y" using assms(1) by simp
    then have "n - 1 \<le> \<lfloor>y\<rfloor>" by (simp only: le_floor_iff)
    moreover have "\<lfloor>y\<rfloor> < n" using False by (simp add: floor_less_iff)
    ultimately have f: "\<lfloor>y\<rfloor> = n - 1" by simp
    then have "1 / 2 < y - of_int \<lfloor>y\<rfloor>" using assms(1) by simp
    then show ?thesis using f by (auto simp: round_half_even_def Let_def)
  qed
  then show ?thesis using up by simp
qed

lemma round_half_even_tie:
  assumes "y = of_int n - 1 / 2" and "even n"
  shows "round_half_even y = n"
proof -
  have "y < of_int n + 1 / 2" using assms(1) by simp
  then have "round_half_even y \<le> n" by (rule round_half_even_upper)
  moreover have "n \<le> round_half_even y"
    using assms by (intro round_half_even_lower_half) simp_all
  ultimately show ?thesis by simp
qed

lemma ilog2_upper_all:
  assumes "0 < a"
  shows "a < pow2 (ilog2 a + 1)"
proof (cases "1 \<le> a")
  case True
  then show ?thesis by (rule ilog2_upper)
next
  case False
  define m where "m = \<lceil>1 / a\<rceil> - 1"
  define k where "k = bitlen m"
  have inv: "1 < 1 / a" using False assms by (simp add: field_simps)
  then have m: "0 < m" unfolding m_def by linarith
  then have k: "0 < k" by (simp add: k_def bitlen_alt_def)
  from bitlen_bounds [OF m] have "2 ^ nat (k - 1) \<le> m" by (simp add: k_def)
  then have "(of_int (2 ^ nat (k - 1)) :: rat) \<le> of_int m" by (simp only: of_int_le_iff)
  moreover have "of_int m < 1 / a" unfolding m_def by linarith
  ultimately have "(of_int (2 ^ nat (k - 1)) :: rat) < 1 / a" by (rule le_less_trans)
  then have "2 ^ nat (k - 1) < 1 / a" by simp
  then have "2 ^ nat (k - 1) * a < 1" using assms by (simp add: field_simps)
  then have "a < 1 / 2 ^ nat (k - 1)" by (simp add: field_simps)
  moreover have "pow2 (- k + 1) = 1 / 2 ^ nat (k - 1)"
    using k by (cases "k = 1") (simp_all add: pow2_def)
  ultimately show ?thesis using False by (simp add: ilog2_def m_def k_def)
qed

lemma ilog2_eq:
  assumes "pow2 k \<le> a" and "a < pow2 (k + 1)"
  shows "ilog2 a = k"
proof -
  have a: "0 < a" using assms(1) pow2_pos [of k] by linarith
  have lo: "pow2 (ilog2 a) \<le> a" using a by (rule ilog2_lower)
  have hi: "a < pow2 (ilog2 a + 1)" using a by (rule ilog2_upper_all)
  have "\<not> ilog2 a < k"
  proof
    assume "ilog2 a < k"
    then have "pow2 (ilog2 a + 1) \<le> pow2 k" by (intro pow2_mono) simp
    then show False using hi assms(1) by linarith
  qed
  moreover have "\<not> k < ilog2 a"
  proof
    assume "k < ilog2 a"
    then have "pow2 (k + 1) \<le> pow2 (ilog2 a)" by (intro pow2_mono) simp
    then show False using lo assms(2) by linarith
  qed
  ultimately show ?thesis by simp
qed

lemma round_magnitude_eval:
  assumes "pow2 k \<le> a" and "a < pow2 (k + 1)" and "- 1022 \<le> k" and "k \<le> 1022"
    and "round_half_even (a / pow2 (k - 52)) = n"
  shows "round_magnitude a = Finite (of_int n * pow2 (k - 52))"
proof -
  define q where "q = pow2 (k - 52)"
  have a: "0 < a" using assms(1) pow2_pos [of k] by linarith
  have q: "0 < q" by (simp add: q_def pow2_pos)
  have e: "max (ilog2 a) (- 1022) = k" using ilog2_eq [OF assms(1,2)] assms(3) by simp
  have "53 + (k - 52) = k + 1" by simp
  then have split: "pow2 (k + 1) = pow2 53 * q"
    using pow2_add [of 53 "k - 52"] by (simp only: q_def)
  then have "a / q < pow2 53" using assms(2) q by (simp add: pos_divide_less_eq)
  moreover have "pow2 53 = of_int (2 ^ 53)" by (simp add: pow2_def)
  ultimately have "a / q < of_int (2 ^ 53)" by (simp only:)
  then have "a / q < of_int (2 ^ 53) + 1 / 2" by linarith
  then have "n \<le> 2 ^ 53" unfolding assms(5) [symmetric] q_def by (rule round_half_even_upper)
  then have "(of_int n :: rat) \<le> of_int (2 ^ 53)" by (simp only: of_int_le_iff)
  then have "(of_int n :: rat) \<le> pow2 53" by (simp add: pow2_def)
  then have "of_int n * q \<le> pow2 53 * q" using q by (simp add: mult_le_cancel_right)
  also have "\<dots> = pow2 (k + 1)" using split by simp
  also have "\<dots> < pow2 1024" using assms(4) by (intro pow2_strict_mono) simp
  finally have "of_int n * q < pow2 1024" .
  then show ?thesis
    using a by (simp add: round_magnitude_def Let_def e q_def [symmetric] assms(5) [unfolded q_def [symmetric]])
qed

lemma round_magnitude_int:
  assumes "0 \<le> n" and "n < 2 ^ 53"
  shows "round_magnitude (of_int n) = Finite (of_int n)"
proof (cases "n = 0")
  case True
  then show ?thesis by (simp add: round_magnitude_def)
next
  case False
  define a :: rat where "a = of_int n"
  define k where "k = ilog2 a"
  have one: "1 \<le> a" using False assms(1) by (simp add: a_def)
  then have a: "0 < a" by simp
  have lo: "pow2 k \<le> a" unfolding k_def using a by (rule ilog2_lower)
  have hi: "a < pow2 (k + 1)" unfolding k_def using a by (rule ilog2_upper_all)
  have k0: "0 \<le> k" unfolding k_def using one by (rule ilog2_nonneg)
  have "a < of_int (2 ^ 53)" unfolding a_def using assms(2) by (simp only: of_int_less_iff)
  then have "a < pow2 53" by (simp add: pow2_def)
  then have "pow2 k < pow2 53" using lo by linarith
  then have k52: "k \<le> 52" using pow2_mono [of 53 k] by (cases "k \<le> 52") auto
  have "pow2 (k - 52) * pow2 (52 - k) = 1" using pow2_add [of "k - 52" "52 - k"] by (simp add: pow2_def)
  then have inv: "1 / pow2 (k - 52) = pow2 (52 - k)"
    using pow2_pos [of "k - 52"] by (simp add: field_simps)
  have "a / pow2 (k - 52) = a * (1 / pow2 (k - 52))" by simp
  also have "\<dots> = of_int n * of_int (2 ^ nat (52 - k))"
    using k52 by (simp only: inv a_def pow2_nat)
  also have "\<dots> = of_int (n * 2 ^ nat (52 - k))" by simp
  finally have "round_half_even (a / pow2 (k - 52)) = n * 2 ^ nat (52 - k)"
    by (simp only: round_half_even_int)
  from round_magnitude_eval [OF lo hi _ _ this]
  have "round_magnitude a = Finite (of_int (n * 2 ^ nat (52 - k)) * pow2 (k - 52))"
    using k0 k52 by simp
  also have "of_int (n * 2 ^ nat (52 - k)) * pow2 (k - 52) = a * (pow2 (52 - k) * pow2 (k - 52))"
    using k52 by (simp add: a_def pow2_nat)
  also have "pow2 (52 - k) * pow2 (k - 52) = 1"
    using pow2_add [of "52 - k" "k - 52"] by (simp add: pow2_def)
  finally show ?thesis by (simp add: a_def)
qed

lemma round_magnitude_overflow:
  assumes "pow2 1024 - pow2 970 \<le> a"
  shows "round_magnitude a = PosInf"
proof -
  define e where "e = ilog2 a"
  define q where "q = pow2 (e - 52)"
  define n where "n = round_half_even (a / q)"
  have "pow2 970 \<le> pow2 1023" by (rule pow2_mono) simp
  moreover have "pow2 1024 = pow2 1023 + pow2 1023"
    using pow2_add [of 1023 1] by (simp add: pow2_def [of 1])
  ultimately have big: "pow2 1023 \<le> pow2 1024 - pow2 970" by linarith
  then have a1023: "pow2 1023 \<le> a" using assms by linarith
  then have a: "0 < a" using pow2_pos [of 1023] by linarith
  have q: "0 < q" by (simp add: q_def pow2_pos)
  have lo: "pow2 e \<le> a" unfolding e_def using a by (rule ilog2_lower)
  have hi: "a < pow2 (e + 1)" unfolding e_def using a by (rule ilog2_upper_all)
  have "pow2 1023 < pow2 (e + 1)" using a1023 hi by linarith
  then have e: "1023 \<le> e" using pow2_mono [of "e + 1" 1023] by (cases "1023 \<le> e") auto
  then have m: "max (ilog2 a) (- 1022) = e" by (simp add: e_def)
  have "pow2 1024 \<le> of_int n * q"
  proof (cases "e = 1023")
    case True
    then have q971: "q = pow2 971" by (simp add: q_def)
    have p: "pow2 1024 = pow2 53 * pow2 971" using pow2_add [of 53 971] by simp
    moreover have "pow2 970 * 2 = pow2 971" using pow2_add [of 970 1] by (simp add: pow2_def)
    ultimately have "pow2 1024 - pow2 970 = (pow2 53 - 1 / 2) * pow2 971"
      by (simp add: algebra_simps)
    then have "pow2 53 - 1 / 2 \<le> a / q" using assms pow2_pos [of 971]
      by (simp add: q971 pos_le_divide_eq)
    moreover have "pow2 53 = of_int (2 ^ 53)" by (simp add: pow2_def)
    ultimately have "of_int (2 ^ 53) - 1 / 2 \<le> a / q" by (simp only:)
    then have "2 ^ 53 \<le> n" unfolding n_def by (rule round_half_even_lower_half) simp
    then have "(of_int (2 ^ 53) :: rat) \<le> of_int n" by (simp only: of_int_le_iff)
    then have "pow2 53 \<le> of_int n" by (simp add: pow2_def)
    then have "pow2 53 * q \<le> of_int n * q" using q by (simp add: mult_le_cancel_right)
    then show ?thesis using p by (simp add: q971)
  next
    case False
    then have e1024: "1024 \<le> e" using e by simp
    have "52 + (e - 52) = e" by simp
    then have split: "pow2 e = pow2 52 * q" using pow2_add [of 52 "e - 52"] by (simp only: q_def)
    then have "pow2 52 \<le> a / q" using lo q by (simp add: pos_le_divide_eq)
    moreover have "pow2 52 = of_int (2 ^ 52)" by (simp add: pow2_def)
    ultimately have "of_int (2 ^ 52) \<le> a / q" by (simp only:)
    then have "2 ^ 52 \<le> n" unfolding n_def by (rule round_half_even_lower)
    then have "(of_int (2 ^ 52) :: rat) \<le> of_int n" by (simp only: of_int_le_iff)
    then have "pow2 52 \<le> of_int n" by (simp add: pow2_def)
    then have "pow2 52 * q \<le> of_int n * q" using q by (simp add: mult_le_cancel_right)
    then have "pow2 e \<le> of_int n * q" using split by simp
    moreover have "pow2 1024 \<le> pow2 e" using e1024 by (rule pow2_mono)
    ultimately show ?thesis by linarith
  qed
  then show ?thesis
    using a by (simp add: round_magnitude_def Let_def m q_def [symmetric] n_def [symmetric])
qed

lemma int_to_float_overflow:
  assumes "2 ^ 1024 - 2 ^ 970 \<le> n"
  shows "int_to_float n = Inl OverflowError"
proof -
  have eq: "pow2 1024 - pow2 970 = of_int (2 ^ 1024 - 2 ^ 970)" by (simp add: pow2_def)
  have "(of_int (2 ^ 1024 - 2 ^ 970) :: rat) \<le> of_int n" using assms by (simp only: of_int_le_iff)
  then have "pow2 1024 - pow2 970 \<le> (of_int n :: rat)" by (simp only: eq)
  then have "round_magnitude (of_int n) = PosInf" by (rule round_magnitude_overflow)
  moreover have "(0 :: int) \<le> 2 ^ 1024 - 2 ^ 970" by simp
  then have "0 \<le> n" using assms by (rule order_trans)
  then have "\<not> (of_int n :: rat) < 0" by simp
  ultimately show ?thesis by (simp add: int_to_float_def to_double_def)
qed

lemma to_double_int: "0 \<le> n \<Longrightarrow> n < 2 ^ 53 \<Longrightarrow> to_double (of_int n) = Finite (of_int n)"
  by (simp add: to_double_def round_magnitude_int)

lemma py_round2_int:
  assumes "0 \<le> n" and "n < 2 ^ 53"
  shows "py_round2 (Finite (of_int n)) = Finite (of_int n)"
proof -
  have "round_hundredths (of_int n) = of_int n"
    using round_half_even_int [of "n * 100"] by (simp add: round_hundredths_def)
  then show ?thesis using assms by (simp add: round_magnitude_int)
qed

lemma to_double_numeral:
  "(numeral w :: int) < 2 ^ 53 \<Longrightarrow> to_double (numeral w) = Finite (numeral w)"
  using to_double_int [of "numeral w"] by simp

lemma py_round2_numeral:
  "(numeral w :: int) < 2 ^ 53 \<Longrightarrow> py_round2 (Finite (numeral w)) = Finite (numeral w)"
  using py_round2_int [of "numeral w"] by simp

lemma py_round2_nonneg_arg:
  "0 \<le> x \<Longrightarrow> py_round2 (Finite x) = round_magnitude (round_hundredths x)"
  by simp

section \<open>The elapsed time\<close>

lemma million_small: "pow2 (- 1074) \<le> 1 / 1000000"
proof -
  have "(1000000 :: rat) \<le> 2 ^ 20" by simp
  also have "\<dots> \<le> 2 ^ 1074" by (rule power_increasing) simp_all
  finally have "(1000000 :: rat) \<le> 2 ^ 1074" .
  then have "1 / 2 ^ 1074 \<le> (1 :: rat) / 1000000" by (rule divide_left_mono) simp_all
  then show ?thesis by (simp add: pow2_def)
qed

lemma total_seconds_positive:
  assumes "t0 < t"
  shows "total_seconds t t0 = PosInf \<or> (\<exists>r>0. total_seconds t t0 = Finite r)"
proof -
  have "(1 :: rat) \<le> of_int (t - t0)" using assms by simp
  then have "1 / 1000000 \<le> (of_int (t - t0) :: rat) / 1000000" by (simp add: divide_right_mono)
  with million_small have "pow2 (- 1074) \<le> (of_int (t - t0) :: rat) / 1000000" by (rule order_trans)
  from round_magnitude_pos [OF this] show ?thesis
    using assms by (simp add: total_seconds_def to_double_def)
qed

lemma total_seconds_later: "t0 < t \<Longrightarrow> \<not> at_most_zero (total_seconds t t0)"
  using total_seconds_positive [of t0 t] by auto

lemma total_seconds_not_zero: "t0 < t \<Longrightarrow> \<not> is_zero (total_seconds t t0)"
  using total_seconds_positive [of t0 t] by auto

lemma total_seconds_not_later:
  assumes "t \<le> t0"
  shows "at_most_zero (total_seconds t t0)"
proof (cases "t = t0")
  case True
  then show ?thesis by (simp add: total_seconds_def to_double_def round_magnitude_def)
next
  case False
  then have neg: "(of_int (t - t0) :: rat) / 1000000 < 0" using assms by simp
  then have "0 \<le> - ((of_int (t - t0) :: rat) / 1000000)" by simp
  from round_magnitude_nonneg [OF this] show ?thesis
    using neg by (auto simp: total_seconds_def to_double_def)
qed

lemma total_seconds_same: "total_seconds t t = Finite 0"
  by (simp add: total_seconds_def to_double_def round_magnitude_def)

section \<open>The speed sensor: first reading and counter reset\<close>

text \<open>
  Claim C9. A sensor with no stored cursor (as every sensor is after \<open>__init__\<close>, the
  cursor living in memory only) that finds its key in the snapshot stores the value and
  the time of the reading and returns the rate 0.
\<close>

theorem first_observation:
  assumes "map_of data (source_key self) = Some v"
    and "last_value self = None \<or> last_update self = None"
  shows "native_value (Suc depth) data clock self =
           (Inr (Some (VInt 0)), self\<lparr>last_value := Some v, last_update := Some (clock 0)\<rparr>)"
  using assms by (auto simp: Let_def split: option.splits)

theorem first_observation_witness:
  "native_value (Suc 999) [(''lan_eth1_rx_total_bytes'', VInt 100)] (\<lambda>n. 1000000)
     (speed_sensor_init ''lan_eth1_rx_total_bytes'') =
   (Inr (Some (VInt 0)),
    \<lparr>source_key = ''lan_eth1_rx_total_bytes'', last_value = Some (VInt 100),
     last_update = Some 1000000, cached_speed = None\<rparr>)"
proof -
  let ?self = "speed_sensor_init ''lan_eth1_rx_total_bytes''"
  let ?data = "[(''lan_eth1_rx_total_bytes'', VInt 100)]"
  have h1: "map_of ?data (source_key ?self) = Some (VInt 100)"
    by (simp add: speed_sensor_init_def)
  have h2: "last_value ?self = None \<or> last_update ?self = None"
    by (simp add: speed_sensor_init_def)
  show ?thesis
    using first_observation [OF h1 h2, of 999 "\<lambda>n. 1000000"]
    by (simp add: speed_sensor_init_def)
qed

lemma py_sub_fell:
  assumes "(\<exists>a a0. v = VInt a \<and> v0 = VInt a0 \<and> a < a0) \<or>
           (\<exists>x x0. float_value v = Some x \<and> float_value v0 = Some x0 \<and> x < x0)"
  shows "\<exists>d. py_sub v v0 = Inr d \<and> negative_number d"
proof -
  have conv: "int_to_float a = Inr (Finite (of_int a))" if "is_double (of_int a)" for a
    using that by (simp add: int_to_float_def is_double_def)
  from assms show ?thesis
  proof
    assume "\<exists>a a0. v = VInt a \<and> v0 = VInt a0 \<and> a < a0"
    then show ?thesis by auto
  next
    assume "\<exists>x x0. float_value v = Some x \<and> float_value v0 = Some x0 \<and> x < x0"
    then obtain x x0 where f: "float_value v = Some x" "float_value v0 = Some x0" "x < x0"
      by blast
    have dx: "is_double x" using f(1) by (cases v rule: float_value.cases) (auto split: if_splits)
    have dx0: "is_double x0" using f(2) by (cases v0 rule: float_value.cases) (auto split: if_splits)
    have neg: "below_zero (double_sub (Finite x) (Finite x0))"
      using dx dx0 f(3) by (rule double_sub_below_zero)
    show ?thesis
    proof (cases v rule: float_value.cases)
      case (1 a)
      then have a: "is_double (of_int a)" "x = of_int a" using f(1) by (auto split: if_splits)
      show ?thesis
      proof (cases v0 rule: float_value.cases)
        case (1 a0)
        then have "is_double (of_int a0)" "x0 = of_int a0" using f(2) by (auto split: if_splits)
        then have "a < a0" using f(3) a(2) by simp
        then show ?thesis using \<open>v = VInt a\<close> 1 by simp
      next
        case (2 y)
        then have "x0 = y" using f(2) by (auto split: if_splits)
        then show ?thesis using \<open>v = VInt a\<close> 2 a neg by (simp add: conv)
      qed (use f(2) in auto)
    next
      case (2 y)
      then have y: "x = y" using f(1) by (auto split: if_splits)
      show ?thesis
      proof (cases v0 rule: float_value.cases)
        case (1 a0)
        then have "is_double (of_int a0)" "x0 = of_int a0" using f(2) by (auto split: if_splits)
        then show ?thesis using \<open>v = VFloat (Finite y)\<close> 1 y neg by (simp add: conv)
      next
        case (2 y0)
        then have "x0 = y0" using f(2) by (auto split: if_splits)
        then show ?thesis using \<open>v = VFloat (Finite y)\<close> 2 y neg by simp
      qed (use f(2) in auto)
    qed (use f(1) in auto)
  qed
qed

text \<open>
  Claim C7. With a stored cursor, a reading at a strictly later time whose value is
  strictly smaller than the stored one (a counter reset) becomes the new cursor, and the
  rate returned is 0, never a negative rate. The values are two integers, as the
  counters of the reports are, or any two of floats and of integers that a float
  represents exactly: the subtraction of a float and an integer converts the integer,
  and the difference of two different floats is never rounded to zero. The instance of
  the witness is the cursor (150, 5 s) followed by the reading 120 at 10 s.
\<close>

theorem counter_reset:
  assumes "map_of data (source_key self) = Some v"
    and "last_value self = Some v0" and "last_update self = Some t0"
    and "t0 < clock 0"
    and "(\<exists>a a0. v = VInt a \<and> v0 = VInt a0 \<and> a < a0) \<or>
         (\<exists>x x0. float_value v = Some x \<and> float_value v0 = Some x0 \<and> x < x0)"
  shows "native_value (Suc depth) data clock self =
           (Inr (Some (VInt 0)), self\<lparr>last_value := Some v, last_update := Some (clock 0)\<rparr>)"
proof -
  from py_sub_fell [OF assms(5)] obtain d where "py_sub v v0 = Inr d" "negative_number d"
    by blast
  then show ?thesis
    using assms(1-3) total_seconds_later [OF assms(4)] by (simp add: Let_def)
qed

theorem counter_reset_witness:
  "native_value (Suc 999) [(''lan_eth1_rx_total_bytes'', VInt 120)] (\<lambda>n. 10000000)
     \<lparr>source_key = ''lan_eth1_rx_total_bytes'', last_value = Some (VInt 150),
      last_update = Some 5000000, cached_speed = Some (Finite 10)\<rparr> =
   (Inr (Some (VInt 0)),
    \<lparr>source_key = ''lan_eth1_rx_total_bytes'', last_value = Some (VInt 120),
     last_update = Some 10000000, cached_speed = Some (Finite 10)\<rparr>)"
proof -
  let ?self = "\<lparr>source_key = ''lan_eth1_rx_total_bytes'', last_value = Some (VInt 150),
      last_update = Some 5000000, cached_speed = Some (Finite 10)\<rparr>"
  let ?data = "[(''lan_eth1_rx_total_bytes'', VInt 120)]"
  have h1: "map_of ?data (source_key ?self) = Some (VInt 120)" by simp
  have h2: "last_value ?self = Some (VInt 150)" by simp
  have h3: "last_update ?self = Some 5000000" by simp
  have h4: "(5000000 :: int) < (\<lambda>n :: nat. 10000000) 0" by simp
  have h5: "(\<exists>a a0. VInt 120 = VInt a \<and> VInt 150 = VInt a0 \<and> a < a0) \<or>
         (\<exists>x x0. float_value (VInt 120) = Some x \<and> float_value (VInt 150) = Some x0 \<and> x < x0)"
    by simp
  show ?thesis
    using counter_reset [OF h1 h2 h3 h4 h5, of 999] by simp
qed

section \<open>The speed sensor: rates\<close>

lemma native_value_rate:
  assumes "map_of data (source_key self) = Some (VInt a)"
    and "last_value self = Some (VInt a0)" and "last_update self = Some t0"
    and "t0 < clock 0" and "a0 \<le> a" and "a - a0 < 2 ^ 1024 - 2 ^ 970"
  shows "native_value (Suc depth) data clock self =
           (Inr (Some (VFloat (py_round2 (double_div (to_double (of_int (a - a0)))
                                                     (total_seconds (clock 0) t0))))),
            self\<lparr>last_value := Some (VInt a), last_update := Some (clock 0),
                 cached_speed := Some (py_round2 (double_div (to_double (of_int (a - a0)))
                                                             (total_seconds (clock 0) t0)))\<rparr>)"
    and "py_round2 (double_div (to_double (of_int (a - a0))) (total_seconds (clock 0) t0)) = PosInf \<or>
         (\<exists>r\<ge>0. py_round2 (double_div (to_double (of_int (a - a0)))
                                        (total_seconds (clock 0) t0)) = Finite r)"
proof -
  have "0 \<le> a - a0" using assms(5) by simp
  from int_to_float_small [OF this assms(6)] obtain r where
    r: "0 \<le> r" "int_to_float (a - a0) = Inr (Finite r)" "to_double (of_int (a - a0)) = Finite r"
    by blast
  let ?td = "total_seconds (clock 0) t0"
  have td: "?td = PosInf \<or> (\<exists>t>0. ?td = Finite t)"
    using assms(4) by (rule total_seconds_positive)
  have sign: "py_round2 (double_div (Finite r) ?td) = PosInf \<or>
              (\<exists>s\<ge>0. py_round2 (double_div (Finite r) ?td) = Finite s)"
    using r(1) td by (intro py_round2_nonneg double_div_nonneg)
  have run: "native_value (Suc depth) data clock self =
          (Inr (Some (VFloat (py_round2 (double_div (Finite r) ?td)))),
           self\<lparr>last_value := Some (VInt a), last_update := Some (clock 0),
                cached_speed := Some (py_round2 (double_div (Finite r) ?td))\<rparr>)"
    using assms(1-3) assms(5) total_seconds_later [OF assms(4)]
      total_seconds_not_zero [OF assms(4)] r(2)
    by (simp add: Let_def py_truediv_def)
  show "native_value (Suc depth) data clock self =
           (Inr (Some (VFloat (py_round2 (double_div (to_double (of_int (a - a0)))
                                                     (total_seconds (clock 0) t0))))),
            self\<lparr>last_value := Some (VInt a), last_update := Some (clock 0),
                 cached_speed := Some (py_round2 (double_div (to_double (of_int (a - a0)))
                                                             (total_seconds (clock 0) t0)))\<rparr>)"
    using run by (simp only: r(3))
  show "py_round2 (double_div (to_double (of_int (a - a0))) (total_seconds (clock 0) t0)) = PosInf \<or>
         (\<exists>r\<ge>0. py_round2 (double_div (to_double (of_int (a - a0)))
                                        (total_seconds (clock 0) t0)) = Finite r)"
    using sign by (simp only: r(3))
qed

lemma native_value_overflow:
  assumes "map_of data (source_key self) = Some (VInt a)"
    and "last_value self = Some (VInt a0)" and "last_update self = Some t0"
    and "t0 < clock 0" and "2 ^ 1024 - 2 ^ 970 \<le> a - a0"
  shows "native_value (Suc depth) data clock self = (Inl OverflowError, self)"
proof -
  have "(0 :: int) \<le> 2 ^ 1024 - 2 ^ 970" by simp
  then have "\<not> a - a0 < 0" using assms(5) by linarith
  then show ?thesis
    using assms(1-3) total_seconds_later [OF assms(4)] int_to_float_overflow [OF assms(5)]
    by (simp add: Let_def py_truediv_def)
qed

lemma sample_rate:
  "py_round2 (double_div (to_double (of_int (150 - 100))) (total_seconds 5000000 0)) = Finite 10"
  by (simp add: total_seconds_def double_div_def to_double_numeral py_round2_numeral
        del: py_round2.simps)

text \<open>
  Claim C8, as amended. With a stored cursor, a reading of an integer counter at a
  strictly later time whose value is not smaller than the stored one has two outcomes.
  When the difference of the values is below \<open>2 ^ 1024 - 2 ^ 970\<close>, the call returns
  \<open>round(value_diff / time_diff, 2)\<close> as floating point computes it: the difference
  converted to the nearest float, divided by the float of the elapsed seconds with one
  rounding, and the quotient rounded to hundredths and then to the nearest float. That
  rate is never negative and never not-a-number; it is kept in \<open>_cached_speed\<close>, and the
  reading becomes the new cursor. From \<open>2 ^ 1024 - 2 ^ 970\<close> on the difference has no
  float: the call raises \<open>OverflowError\<close> and leaves the sensor as it was. The instances
  of the witness are the cursor (100, 0 s) followed by the reading 150 at 5 s, 10.0
  bytes per second, and the same cursor followed by a reading that lies
  \<open>2 ^ 1024 - 2 ^ 970\<close> above it.
\<close>

theorem rate_computed:
  assumes "map_of data (source_key self) = Some (VInt a)"
    and "last_value self = Some (VInt a0)" and "last_update self = Some t0"
    and "t0 < clock 0" and "a0 \<le> a"
  shows "(a - a0 < 2 ^ 1024 - 2 ^ 970 \<longrightarrow>
           (\<exists>rate.
              rate = py_round2 (double_div (to_double (of_int (a - a0)))
                                           (total_seconds (clock 0) t0)) \<and>
              native_value (Suc depth) data clock self =
                (Inr (Some (VFloat rate)),
                 self\<lparr>last_value := Some (VInt a), last_update := Some (clock 0),
                      cached_speed := Some rate\<rparr>) \<and>
              (rate = PosInf \<or> (\<exists>r\<ge>0. rate = Finite r)))) \<and>
         (2 ^ 1024 - 2 ^ 970 \<le> a - a0 \<longrightarrow>
            native_value (Suc depth) data clock self = (Inl OverflowError, self))"
proof (intro conjI impI)
  assume small: "a - a0 < 2 ^ 1024 - 2 ^ 970"
  show "\<exists>rate.
          rate = py_round2 (double_div (to_double (of_int (a - a0)))
                                       (total_seconds (clock 0) t0)) \<and>
          native_value (Suc depth) data clock self =
            (Inr (Some (VFloat rate)),
             self\<lparr>last_value := Some (VInt a), last_update := Some (clock 0),
                  cached_speed := Some rate\<rparr>) \<and>
          (rate = PosInf \<or> (\<exists>r\<ge>0. rate = Finite r))"
    using native_value_rate(1) [where clock = clock, OF assms small]
      native_value_rate(2) [where clock = clock, OF assms small] by blast
next
  assume "2 ^ 1024 - 2 ^ 970 \<le> a - a0"
  then show "native_value (Suc depth) data clock self = (Inl OverflowError, self)"
    by (rule native_value_overflow [where clock = clock, OF assms(1-4)])
qed

theorem rate_computed_witness:
  "native_value (Suc 999) [(''lan_eth1_rx_total_bytes'', VInt 150)] (\<lambda>n. 5000000)
     \<lparr>source_key = ''lan_eth1_rx_total_bytes'', last_value = Some (VInt 100),
      last_update = Some 0, cached_speed = None\<rparr> =
   (Inr (Some (VFloat (Finite 10))),
    \<lparr>source_key = ''lan_eth1_rx_total_bytes'', last_value = Some (VInt 150),
     last_update = Some 5000000, cached_speed = Some (Finite 10)\<rparr>) \<and>
   native_value (Suc 999) [(''lan_eth1_rx_total_bytes'', VInt (2 ^ 1024 - 2 ^ 970 + 100))]
     (\<lambda>n. 5000000)
     \<lparr>source_key = ''lan_eth1_rx_total_bytes'', last_value = Some (VInt 100),
      last_update = Some 0, cached_speed = None\<rparr> =
   (Inl OverflowError,
    \<lparr>source_key = ''lan_eth1_rx_total_bytes'', last_value = Some (VInt 100),
     last_update = Some 0, cached_speed = None\<rparr>)"
proof -
  let ?self = "\<lparr>source_key = ''lan_eth1_rx_total_bytes'', last_value = Some (VInt 100),
      last_update = Some 0, cached_speed = None\<rparr>"
  let ?data = "[(''lan_eth1_rx_total_bytes'', VInt 150)]"
  let ?huge = "[(''lan_eth1_rx_total_bytes'', VInt (2 ^ 1024 - 2 ^ 970 + 100))]"
  have h1: "map_of ?data (source_key ?self) = Some (VInt 150)" by simp
  have h2: "last_value ?self = Some (VInt 100)" by simp
  have h3: "last_update ?self = Some 0" by simp
  have h4: "(0 :: int) < (\<lambda>n :: nat. 5000000) 0" by simp
  have h5: "(100 :: int) \<le> 150" by simp
  have h6: "(150 :: int) - 100 < 2 ^ 1024 - 2 ^ 970" by simp
  have k1: "map_of ?huge (source_key ?self) = Some (VInt (2 ^ 1024 - 2 ^ 970 + 100))" by simp
  have k5: "(100 :: int) \<le> 2 ^ 1024 - 2 ^ 970 + 100" by simp
  have k6: "(2 :: int) ^ 1024 - 2 ^ 970 \<le> 2 ^ 1024 - 2 ^ 970 + 100 - 100" by simp
  show ?thesis
    using rate_computed [OF h1 h2 h3 h4 h5, of 999] h6
      rate_computed [OF k1 h2 h3 h4 k5, of 999] k6 sample_rate
    by (simp del: power_numeral)
qed

lemma quotient_107_40: "to_double (107 / 40) = Finite (6023564501608038 / 2251799813685248)"
proof -
  have "round_half_even (107 / 40 / pow2 (1 - 52)) = 6023564501608038"
    by (rule round_half_even_near) (simp_all add: pow2_def)
  then have "round_magnitude (107 / 40) = Finite (of_int 6023564501608038 * pow2 (1 - 52))"
    by (intro round_magnitude_eval) (simp_all add: pow2_def)
  then show ?thesis by (simp add: to_double_def pow2_def)
qed

lemma hundredths_107_40: "round_hundredths (6023564501608038 / 2251799813685248) = 267 / 100"
proof -
  have "round_half_even (6023564501608038 / 2251799813685248 * 100) = 267"
    by (rule round_half_even_near) simp_all
  then show ?thesis by (simp add: round_hundredths_def)
qed

lemma hundredths_exact_107_40: "round_hundredths (107 / 40) = 268 / 100"
proof -
  have "round_half_even (107 / 40 * 100) = 268"
    by (rule round_half_even_tie) simp_all
  then show ?thesis by (simp add: round_hundredths_def)
qed

lemma rate_107_40:
  "py_round2 (double_div (Finite 107) (total_seconds 40000000 0)) = to_double (267 / 100)"
proof -
  have "total_seconds 40000000 0 = Finite 40"
    by (simp add: total_seconds_def to_double_numeral)
  moreover have "double_div (Finite 107) (Finite 40) = to_double (107 / 40)"
    by (simp add: double_div_def)
  moreover have "py_round2 (Finite (6023564501608038 / 2251799813685248)) =
                   round_magnitude (round_hundredths (6023564501608038 / 2251799813685248))"
    by (rule py_round2_nonneg_arg) simp
  moreover have "round_magnitude (267 / 100) = to_double (267 / 100)"
    by (simp add: to_double_def)
  ultimately show ?thesis by (simp only: quotient_107_40 hundredths_107_40)
qed

text \<open>
  Claim C8, as stated, fails twice. The rate returned is not always the quotient
  rounded to two decimal places: 107 bytes in 40 s are 2.675 bytes per second, which
  rounds to 2.68, and the call returns the float nearest to 2.67, because the float
  nearest to 2.675 lies below it. And a difference too large for a float gives no
  rate: the reading \<open>2 ^ 1024\<close> after the cursor (0, 0 s) raises \<open>OverflowError\<close>, and the
  cursor stays.
\<close>

theorem rate_counterexample:
  "native_value (Suc 0) [(''lan_eth1_rx_total_bytes'', VInt 107)] (steady_clock 40000000)
     \<lparr>source_key = ''lan_eth1_rx_total_bytes'', last_value = Some (VInt 0),
      last_update = Some 0, cached_speed = None\<rparr> =
   (Inr (Some (VFloat (to_double (267 / 100)))),
    \<lparr>source_key = ''lan_eth1_rx_total_bytes'', last_value = Some (VInt 107),
     last_update = Some 40000000, cached_speed = Some (to_double (267 / 100))\<rparr>)
   \<and> round_hundredths (107 / 40) = 268 / 100
   \<and> native_value (Suc 0) [(''lan_eth1_rx_total_bytes'', VInt (2 ^ 1024))] (steady_clock 5000000)
     \<lparr>source_key = ''lan_eth1_rx_total_bytes'', last_value = Some (VInt 0),
      last_update = Some 0, cached_speed = None\<rparr> =
   (Inl OverflowError,
    \<lparr>source_key = ''lan_eth1_rx_total_bytes'', last_value = Some (VInt 0),
     last_update = Some 0, cached_speed = None\<rparr>)"
proof (intro conjI)
  have later: "\<not> at_most_zero (total_seconds 40000000 0)"
    "\<not> is_zero (total_seconds 40000000 0)"
    by (simp_all add: total_seconds_later total_seconds_not_zero)
  have conv: "int_to_float 107 = Inr (Finite 107)"
    by (simp add: int_to_float_def to_double_numeral)
  show "native_value (Suc 0) [(''lan_eth1_rx_total_bytes'', VInt 107)] (steady_clock 40000000)
     \<lparr>source_key = ''lan_eth1_rx_total_bytes'', last_value = Some (VInt 0),
      last_update = Some 0, cached_speed = None\<rparr> =
   (Inr (Some (VFloat (to_double (267 / 100)))),
    \<lparr>source_key = ''lan_eth1_rx_total_bytes'', last_value = Some (VInt 107),
     last_update = Some 40000000, cached_speed = Some (to_double (267 / 100))\<rparr>)"
    by (simp add: Let_def steady_clock_def later conv py_truediv_def rate_107_40
          del: py_round2.simps)
next
  show "round_hundredths (107 / 40) = 268 / 100" by (rule hundredths_exact_107_40)
next
  show "native_value (Suc 0) [(''lan_eth1_rx_total_bytes'', VInt (2 ^ 1024))] (steady_clock 5000000)
     \<lparr>source_key = ''lan_eth1_rx_total_bytes'', last_value = Some (VInt 0),
      last_update = Some 0, cached_speed = None\<rparr> =
   (Inl OverflowError,
    \<lparr>source_key = ''lan_eth1_rx_total_bytes'', last_value = Some (VInt 0),
     last_update = Some 0, cached_speed = None\<rparr>)"
  proof (rule native_value_overflow [where ?a0.0 = 0 and ?t0.0 = 0])
    have "(0 :: int) \<le> 2 ^ 970" by (rule zero_le_power) simp
    then show "(2 :: int) ^ 1024 - 2 ^ 970 \<le> 2 ^ 1024 - 0" by (simp del: power_numeral)
  qed (simp_all add: steady_clock_def)
qed

section \<open>The speed sensor: a reading that is not later\<close>

lemma microsecond: "to_double (1 / 1000000) = Finite (4722366482869645 / 4722366482869645213696)"
proof -
  have "round_half_even (1 / 1000000 / pow2 (- 20 - 52)) = 4722366482869645"
    by (rule round_half_even_near) (simp_all add: pow2_def)
  then have "round_magnitude (1 / 1000000) = Finite (of_int 4722366482869645 * pow2 (- 20 - 52))"
    by (intro round_magnitude_eval) (simp_all add: pow2_def)
  then show ?thesis by (simp add: to_double_def pow2_def)
qed

lemma five_per_microsecond:
  "to_double (5 / (4722366482869645 / 4722366482869645213696)) = Finite 5000000"
proof -
  have "round_half_even (5 / (4722366482869645 / 4722366482869645213696) / pow2 (22 - 52)) =
          5368709120000000"
    by (rule round_half_even_near) (simp_all add: pow2_def)
  then have "round_magnitude (5 / (4722366482869645 / 4722366482869645213696)) =
          Finite (of_int 5368709120000000 * pow2 (22 - 52))"
    by (intro round_magnitude_eval) (simp_all add: pow2_def)
  then show ?thesis by (simp add: to_double_def pow2_def)
qed

lemma five_in_a_microsecond:
  "py_round2 (double_div (Finite 5) (total_seconds 10000001 10000000)) = Finite 5000000"
proof -
  have "total_seconds 10000001 10000000 = Finite (4722366482869645 / 4722366482869645213696)"
    using microsecond by (simp add: total_seconds_def)
  moreover have "double_div (Finite 5) (Finite (4722366482869645 / 4722366482869645213696)) =
                   Finite 5000000"
    using five_per_microsecond by (simp add: double_div_def)
  moreover have "py_round2 (Finite 5000000) = Finite 5000000"
    by (simp add: py_round2_numeral del: py_round2.simps)
  ultimately show ?thesis by (simp only:)
qed

text \<open>
  While the clock does not pass the stored time, a sensor that has a cached speed goes
  on calling itself until the interpreter gives up.
\<close>

lemma frozen_clock_recursion:
  assumes "map_of data (source_key self) = Some v"
    and "last_value self = Some v0" and "last_update self = Some t0"
    and "cached_speed self = Some r" and "\<forall>n. clock n \<le> t0"
  shows "native_value depth data clock self = (Inl RecursionError, self)"
  using assms(5)
proof (induction depth arbitrary: clock)
  case 0
  then show ?case by simp
next
  case (Suc depth)
  have "clock 0 \<le> t0" using Suc.prems by simp
  then have "at_most_zero (total_seconds (clock 0) t0)" by (rule total_seconds_not_later)
  moreover have "native_value depth data (\<lambda>n. clock (Suc n)) self = (Inl RecursionError, self)"
    using Suc.prems by (intro Suc.IH) simp
  ultimately show ?case using assms(1-4) by (simp add: Let_def)
qed

text \<open>
  Claim C3. The claim is that a reading whose time is not later than the stored one
  returns the rate reported before and leaves the cursor alone. The code does so only
  while no rate has been cached. Once \<open>_cached_speed\<close> exists, the branch evaluates
  \<open>self.native_value\<close> instead of \<open>self._cached_speed\<close>: the property runs again with a
  fresh clock reading. With the cursor (200, 10 s), the cached rate 10.0, the value 205
  and a clock that reads 10 s and then one microsecond more, the call returns
  5000000.0 and moves the cursor to (205, 10.000001 s); with a clock that stays at 10 s
  it ends in \<open>RecursionError\<close>, whatever the depth allowed.
\<close>

theorem same_instant_reenters:
  "native_value (Suc (Suc depth)) [(''lan_eth1_rx_total_bytes'', VInt 205)]
     (\<lambda>n. 10000000 + int n)
     \<lparr>source_key = ''lan_eth1_rx_total_bytes'', last_value = Some (VInt 200),
      last_update = Some 10000000, cached_speed = Some (Finite 10)\<rparr> =
   (Inr (Some (VFloat (Finite 5000000))),
    \<lparr>source_key = ''lan_eth1_rx_total_bytes'', last_value = Some (VInt 205),
     last_update = Some 10000001, cached_speed = Some (Finite 5000000)\<rparr>)
   \<and>
   native_value depth [(''lan_eth1_rx_total_bytes'', VInt 205)] (\<lambda>n. 10000000)
     \<lparr>source_key = ''lan_eth1_rx_total_bytes'', last_value = Some (VInt 200),
      last_update = Some 10000000, cached_speed = Some (Finite 10)\<rparr> =
   (Inl RecursionError,
    \<lparr>source_key = ''lan_eth1_rx_total_bytes'', last_value = Some (VInt 200),
     last_update = Some 10000000, cached_speed = Some (Finite 10)\<rparr>)"
proof
  have later: "\<not> at_most_zero (total_seconds 10000001 10000000)"
    "\<not> is_zero (total_seconds 10000001 10000000)"
    by (simp_all add: total_seconds_later total_seconds_not_zero)
  have five: "int_to_float 5 = Inr (Finite 5)"
    by (simp add: int_to_float_def to_double_numeral)
  show "native_value (Suc (Suc depth)) [(''lan_eth1_rx_total_bytes'', VInt 205)]
     (\<lambda>n. 10000000 + int n)
     \<lparr>source_key = ''lan_eth1_rx_total_bytes'', last_value = Some (VInt 200),
      last_update = Some 10000000, cached_speed = Some (Finite 10)\<rparr> =
   (Inr (Some (VFloat (Finite 5000000))),
    \<lparr>source_key = ''lan_eth1_rx_total_bytes'', last_value = Some (VInt 205),
     last_update = Some 10000001, cached_speed = Some (Finite 5000000)\<rparr>)"
    by (simp add: Let_def total_seconds_same later five py_truediv_def five_in_a_microsecond
          del: py_round2.simps)
next
  show "native_value depth [(''lan_eth1_rx_total_bytes'', VInt 205)] (\<lambda>n. 10000000)
     \<lparr>source_key = ''lan_eth1_rx_total_bytes'', last_value = Some (VInt 200),
      last_update = Some 10000000, cached_speed = Some (Finite 10)\<rparr> =
   (Inl RecursionError,
    \<lparr>source_key = ''lan_eth1_rx_total_bytes'', last_value = Some (VInt 200),
     last_update = Some 10000000, cached_speed = Some (Finite 10)\<rparr>)"
    by (rule frozen_clock_recursion [where ?t0.0 = 10000000]) simp_all
qed

section \<open>Errors of the session and of the extractors\<close>

text \<open>
  Claim C1. The claim is that a connection-level error of the session leaves
  \<open>get_all_data\<close> as an error and reaches the coordinator as one failed poll. The code
  catches it: when \<open>asyncssh.connect\<close> raises, \<open>get_all_data\<close> returns the empty mapping
  and \<open>async_update_data\<close> hands it on as a successful update; no session at all makes
  \<open>async_update_data\<close> raise \<open>UpdateFailed\<close>.
\<close>

theorem connection_error_swallowed:
  "get_all_data (s\<lparr>connect_result := Some e\<rparr>) = Inr [] \<and>
   async_update_data (s\<lparr>connect_result := Some e\<rparr>) = Inr [] \<and>
   (\<exists>data. async_update_data s = Inr data)"
  by (auto simp: get_all_data_def async_update_data_def execute_multiple_commands_def
      split: sum.splits option.splits)

text \<open>
  Claim C2. The claim is that no extractor raises, whatever the text. The laser
  extractor does: the class \<open>[-\d.]\<close> captures text that is not a number, and \<open>float()\<close>
  raises \<open>ValueError\<close> on it, here on a lone minus sign.
\<close>

theorem laser_extractor_raises:
  "parse_laser_stats ''Rx Optical Power = - dBm'' = Inl ValueError"
  by code_simp

end
